theory Spec2Isabelle
  imports Main
begin

section \<open>GoMirror: the crawl engine of scanner.go and sources.go\<close>

text \<open>
  The theory embeds the registry (\<open>Sources.Add\<close>), the run-level state machine
  (\<open>Scanner.Start\<close>), the per-resource task (\<open>Scanner.scan\<close>), the path check
  (\<open>Scanner.isParentPath\<close>), the backoff table (\<open>Scanner.waitRepeat\<close>), the seed
  parser (\<open>Scanner.parseURL\<close>) and the srcset extractor (\<open>Scanner.parseSrcset\<close>).

  Go strings are byte sequences: \<open>string\<close> (a list of 8-bit characters), \<open>len\<close> is
  \<open>length\<close>. Functions of the Go standard library (net/url, strings, path/filepath, mime,
  net/http) are not code of this program; the functions that call them take them as
  arguments, so every theorem holds for whatever the library computes.
\<close>

subsection \<open>Go's int\<close>

text \<open>
  \<open>int\<close> is 64 bits wide on the build target (GOARCH=amd64). Values are modelled as
  integers and \<open>x++\<close> wraps around explicitly.
\<close>

definition wrap64 :: "int \<Rightarrow> int" where
  "wrap64 x = (x + 2 ^ 63) mod 2 ^ 64 - 2 ^ 63"

definition incr :: "int \<Rightarrow> int" where
  "incr x = wrap64 (x + 1)"

subsection \<open>Run states and parameters (scanner.go)\<close>

datatype ScannerState =
    ScannerReady
  | ScannerIncorrectURL
  | ScannerPreparing
  | ScannerOutputDirExist
  | ScannerOutputDirError
  | ScannerScanning
  | ScannerComplete

record ScannerParams =
  URL :: string
  ReplaceOutDir :: bool
  RepeatsMax :: int

text \<open>
  Errors are values. Each constructor is one \<open>fmt.Errorf\<close> site of the program, or an
  error handed up from the library (\<open>LibError\<close> with the library's message).
\<close>

datatype error =
    ErrStartWhileRunning ScannerState
  | ErrTooShortAddress
  | ErrAmbiguousURL
  | ErrSkipTooLong
  | ErrStatus int
  | ErrPathEmpty
  | ErrPathChildShorter
  | ErrPathNotInParent
  | LibError string

text \<open>\<open>url.URL\<close>: the fields the program reads and writes.\<close>

record Url =
  Scheme :: string
  Host :: string
  Path :: string
  RawQuery :: string
  Fragment :: string

subsection \<open>Resources and the registry (sources.go)\<close>

datatype SourceState =
    SourceWait
  | SourceRequest
  | SourceRequestWaitRepeat
  | SourceRequestError
  | SourceDownload
  | SourceDownloadError
  | SourceRead
  | SourceSave
  | SourceSaveError
  | SourceComplete
  | SourceSkip

record Source =
  src_url :: Url
  src_state :: SourceState
  src_mime :: string
  src_size :: int
  src_isExternal :: bool
  src_isInteresting :: bool
  src_err :: "error option"
  src_errRead :: "error option"
  src_repeats :: int

text \<open>
  \<open>*Source\<close> values are references. The store is the list of all allocated \<open>Source\<close>
  objects, a reference is an index into it, and \<open>&Source{...}\<close> allocates at the end.
\<close>

type_synonym ref = nat

record Sources =
  reg_m :: "string \<rightharpoonup> ref"
  reg_a :: "ref list"

record registry =
  store :: "Source list"
  sources :: Sources

definition newSources :: Sources where
  "newSources = \<lparr>reg_m = Map.empty, reg_a = []\<rparr>"

text \<open>\<open>Scanner.IsInterstingProtocol\<close>.\<close>

definition IsInterstingProtocol :: "Url \<Rightarrow> bool" where
  "IsInterstingProtocol u =
     (if Scheme u = ''http'' \<or> Scheme u = ''https'' \<or> Scheme u = ''file'' then True
      else False)"

text \<open>
  \<open>Sources.Add\<close>, under the registry's lock. \<open>String\<close> and \<open>Hostname\<close> are the methods of
  \<open>url.URL\<close>; \<open>seed\<close> is the scanner's parsed URL (\<open>s.p.url\<close>).
\<close>

definition Add ::
  "(Url \<Rightarrow> string) \<Rightarrow> (Url \<Rightarrow> string) \<Rightarrow> Url \<Rightarrow> Url \<Rightarrow> registry \<Rightarrow> (ref \<times> bool) \<times> registry"
where
  "Add String Hostname seed u r =
     (let key = String u in
      case reg_m (sources r) key of
        Some v \<Rightarrow> ((v, False), r)
      | None \<Rightarrow>
          (let obj = \<lparr>src_url = u, src_state = SourceWait, src_mime = [], src_size = 0,
                      src_isExternal = (Hostname seed \<noteq> Hostname u),
                      src_isInteresting = IsInterstingProtocol u,
                      src_err = None, src_errRead = None, src_repeats = 0\<rparr>;
               p = length (store r)
           in ((p, True),
               \<lparr>store = store r @ [obj],
                sources = \<lparr>reg_m = (reg_m (sources r))(key \<mapsto> p),
                           reg_a = reg_a (sources r) @ [p]\<rparr>\<rparr>)))"

subsection \<open>The scanner (scanner.go)\<close>

text \<open>
  The limiter is a buffered channel: its capacity and the number of values in it.
  \<open>PARALLEL_REQUESTS_MAX\<close> is declared outside the files at hand and is an argument.
  Times are numbers, \<open>0\<close> the zero time.
\<close>

record Scanner =
  sc_params :: ScannerParams
  sc_state :: ScannerState
  sc_limiter_cap :: nat
  sc_limiter_len :: nat
  sc_sources :: registry
  sc_url :: "Url option"
  sc_home :: string
  sc_dir :: string
  sc_dateStart :: nat
  sc_dateScan :: nat
  sc_dateFinish :: nat
  sc_err :: "error option"
  sc_threads :: int

definition reset :: "nat \<Rightarrow> Scanner \<Rightarrow> Scanner" where
  "reset PARALLEL_REQUESTS_MAX s =
     s\<lparr>sc_sources := \<lparr>store = [], sources = newSources\<rparr>,
       sc_limiter_cap := PARALLEL_REQUESTS_MAX,
       sc_limiter_len := 0,
       sc_dateStart := 0,
       sc_dateScan := 0,
       sc_dateFinish := 0,
       sc_state := ScannerReady,
       sc_params := \<lparr>URL = [], ReplaceOutDir = False, RepeatsMax = 0\<rparr>,
       sc_url := None,
       sc_dir := [],
       sc_err := None,
       sc_threads := 0\<rparr>"

text \<open>
  \<open>Scanner.Start\<close>, the part that runs before the call returns: the switch on the state,
  under the lock. The result is the returned error and the scanner afterwards; the
  preparation itself runs later, in its own goroutine.
\<close>

definition Start :: "nat \<Rightarrow> nat \<Rightarrow> ScannerParams \<Rightarrow> Scanner \<Rightarrow> error option \<times> Scanner" where
  "Start PARALLEL_REQUESTS_MAX now params s =
     (case sc_state s of
        ScannerReady \<Rightarrow>
          (None, (reset PARALLEL_REQUESTS_MAX s)
                   \<lparr>sc_dateStart := now, sc_state := ScannerPreparing, sc_params := params\<rparr>)
      | ScannerOutputDirExist \<Rightarrow>
          (None, (reset PARALLEL_REQUESTS_MAX s)
                   \<lparr>sc_dateStart := now, sc_state := ScannerPreparing, sc_params := params\<rparr>)
      | ScannerIncorrectURL \<Rightarrow>
          (None, (reset PARALLEL_REQUESTS_MAX s)
                   \<lparr>sc_dateStart := now, sc_state := ScannerPreparing, sc_params := params\<rparr>)
      | ScannerComplete \<Rightarrow>
          (None, (reset PARALLEL_REQUESTS_MAX s)
                   \<lparr>sc_dateStart := now, sc_state := ScannerPreparing, sc_params := params\<rparr>)
      | _ \<Rightarrow> (Some (ErrStartWhileRunning (sc_state s)), s))"

text \<open>
  \<open>Scanner.waitRepeat\<close>: the milliseconds slept for a given try; \<open>None\<close> when it returns
  without sleeping.
\<close>

definition waitRepeat :: "int \<Rightarrow> nat option" where
  "waitRepeat try =
     (if try < 1 then None
      else if try = 1 then Some 200
      else if try = 2 then Some 500
      else if try = 3 then Some 1000
      else if try = 4 then Some 2000
      else if try = 5 then Some 5000
      else Some 8000)"

text \<open>
  A sequence of registration attempts. The registry's lock makes the calls of \<open>Add\<close>
  atomic, so concurrent attempts take effect in some order, one after the other; the
  results are listed in that order.
\<close>

fun Adds ::
  "(Url \<Rightarrow> string) \<Rightarrow> (Url \<Rightarrow> string) \<Rightarrow> Url \<Rightarrow> Url list \<Rightarrow> registry \<Rightarrow> (ref \<times> bool) list \<times> registry"
where
  "Adds String Hostname seed [] r = ([], r)"
| "Adds String Hostname seed (u # us) r =
     (case Add String Hostname seed u r of
        (res, r') \<Rightarrow> (case Adds String Hostname seed us r' of (rs, r'') \<Rightarrow> (res # rs, r'')))"

text \<open>The resource \<open>Add\<close> allocates for a URL that is new to the registry.\<close>

definition created_source :: "(Url \<Rightarrow> string) \<Rightarrow> Url \<Rightarrow> Url \<Rightarrow> Source" where
  "created_source Hostname seed u =
     \<lparr>src_url = u, src_state = SourceWait, src_mime = [], src_size = 0,
      src_isExternal = (Hostname seed \<noteq> Hostname u),
      src_isInteresting = IsInterstingProtocol u,
      src_err = None, src_errRead = None, src_repeats = 0\<rparr>"

text \<open>The URL strings of the registered resources, in the order of \<open>Sources.a\<close>.\<close>

definition url_strings :: "(Url \<Rightarrow> string) \<Rightarrow> registry \<Rightarrow> string list" where
  "url_strings String r = map (\<lambda>p. String (src_url (store r ! p))) (reg_a (sources r))"

text \<open>
  The registry's invariant: the sequence lists every allocated resource once, the map
  sends a key to a resource with that URL string, and every resource is found under its
  own URL string.
\<close>

definition reg_inv :: "(Url \<Rightarrow> string) \<Rightarrow> registry \<Rightarrow> bool" where
  "reg_inv String r \<longleftrightarrow>
     reg_a (sources r) = [0..<length (store r)] \<and>
     (\<forall>k p. reg_m (sources r) k = Some p \<longrightarrow>
        p < length (store r) \<and> String (src_url (store r ! p)) = k) \<and>
     (\<forall>p < length (store r). reg_m (sources r) (String (src_url (store r ! p))) = Some p)"

text \<open>
  Sample library functions for the examples: a URL printed as scheme, host and path, and
  a host without a port.
\<close>

definition sample_String :: "Url \<Rightarrow> string" where
  "sample_String u = Scheme u @ ''://'' @ Host u @ Path u"

definition sample_Hostname :: "Url \<Rightarrow> string" where
  "sample_Hostname u = Host u"

definition mkUrl :: "string \<Rightarrow> string \<Rightarrow> string \<Rightarrow> Url" where
  "mkUrl sch h p = \<lparr>Scheme = sch, Host = h, Path = p, RawQuery = [], Fragment = []\<rparr>"

subsection \<open>Strings\<close>

text \<open>
  \<open>strings.Split(s, sep)\<close> for a separator of one byte, as the program calls it: the pieces
  between the separators, one piece for a string without separator, also the empty one.
\<close>

fun Split :: "string \<Rightarrow> char \<Rightarrow> string list" where
  "Split [] sep = [[]]"
| "Split (x # xs) sep =
     (if x = sep then [] # Split xs sep
      else (case Split xs sep of [] \<Rightarrow> [[x]] | w # ws \<Rightarrow> (x # w) # ws))"

text \<open>\<open>strings.Index(s, p) == 0\<close>: \<open>p\<close> occurs in \<open>s\<close> at offset 0.\<close>

definition Index_is_0 :: "string \<Rightarrow> string \<Rightarrow> bool" where
  "Index_is_0 s p = (take (length p) s = p)"

text \<open>\<open>strings.Contains(s, sub)\<close>.\<close>

fun Contains :: "string \<Rightarrow> string \<Rightarrow> bool" where
  "Contains [] sub = (sub = [])"
| "Contains (x # xs) sub = (take (length sub) (x # xs) = sub \<or> Contains xs sub)"

subsection \<open>Seed parsing (\<open>Scanner.parseURL\<close>)\<close>

text \<open>
  \<open>ToLower\<close> is \<open>strings.ToLower\<close> and \<open>Parse\<close> is \<open>url.Parse\<close>, which returns a URL or an
  error.
\<close>

definition parseURL ::
  "(string \<Rightarrow> string) \<Rightarrow> (string \<Rightarrow> error + Url) \<Rightarrow> string \<Rightarrow> error + Url"
where
  "parseURL ToLower Parse text0 =
     (let text = ToLower text0 in
      if length text < 5 then Inl ErrTooShortAddress
      else if Index_is_0 text ''https://'' then Parse text
      else if Index_is_0 text ''http://'' then Parse text
      else if Index_is_0 text ''//'' then Parse text
      else (case Parse (''http://'' @ text) of
              Inl e \<Rightarrow> Inl e
            | Inr u \<Rightarrow> if Host u = [] then Inl ErrAmbiguousURL else Inr u))"

subsection \<open>Links of a tag (\<open>parseSrc\<close>, \<open>parseSrcset\<close>, \<open>readHTML\<close>)\<close>

text \<open>\<open>URL.IsAbs\<close> of net/url: the scheme is not empty.\<close>

definition IsAbs :: "Url \<Rightarrow> bool" where
  "IsAbs u = (Scheme u \<noteq> [])"

text \<open>The step both extractors share: a relative link gets the seed's scheme and host.\<close>

definition absolute :: "Url \<Rightarrow> Url \<Rightarrow> Url" where
  "absolute seed u = (if IsAbs u = False then u\<lparr>Scheme := Scheme seed, Host := Host seed\<rparr> else u)"

definition parseSrc :: "(string \<Rightarrow> error + Url) \<Rightarrow> Url \<Rightarrow> string \<Rightarrow> Url list" where
  "parseSrc Parse seed val =
     (case Parse val of Inl e \<Rightarrow> [] | Inr u \<Rightarrow> [absolute seed u])"

text \<open>
  \<open>parseSrcset\<close>. The inner loop runs once for every element of \<open>arr2\<close> and parses
  \<open>arr[i]\<close> each time; the element \<open>arr2[j]\<close> itself is not read.
\<close>

fun srcset_inner :: "(string \<Rightarrow> error + Url) \<Rightarrow> Url \<Rightarrow> string \<Rightarrow> string list \<Rightarrow> Url list" where
  "srcset_inner Parse seed arr_i [] = []"
| "srcset_inner Parse seed arr_i (arr2_j # rest) =
     (case Parse arr_i of
        Inl e \<Rightarrow> srcset_inner Parse seed arr_i rest
      | Inr u \<Rightarrow> absolute seed u # srcset_inner Parse seed arr_i rest)"

fun srcset_outer :: "(string \<Rightarrow> error + Url) \<Rightarrow> Url \<Rightarrow> string list \<Rightarrow> Url list" where
  "srcset_outer Parse seed [] = []"
| "srcset_outer Parse seed (arr_i # rest) =
     srcset_inner Parse seed arr_i (Split arr_i CHR '' '') @ srcset_outer Parse seed rest"

definition parseSrcset :: "(string \<Rightarrow> error + Url) \<Rightarrow> Url \<Rightarrow> string \<Rightarrow> Url list" where
  "parseSrcset Parse seed val = srcset_outer Parse seed (Split val CHR '','')"

text \<open>
  The tree \<open>html.Parse\<close> returns: a node with its name, its attributes (key and value) and
  its children. \<open>readHTML_links\<close> lists the links \<open>readHTML\<close> starts a scan for, in
  order: the attributes of a node first, then its children.
\<close>

datatype Node = Node (Data: string) (Attr: "(string \<times> string) list") (children: "Node list")

definition attr_links :: "(string \<Rightarrow> error + Url) \<Rightarrow> Url \<Rightarrow> string \<times> string \<Rightarrow> Url list" where
  "attr_links Parse seed a =
     (if fst a = ''src'' \<or> fst a = ''href'' then parseSrc Parse seed (snd a)
      else if fst a = ''srcset'' \<or> fst a = ''data-srcset'' then parseSrcset Parse seed (snd a)
      else [])"

fun readHTML_links :: "(string \<Rightarrow> error + Url) \<Rightarrow> Url \<Rightarrow> Node \<Rightarrow> Url list" where
  "readHTML_links Parse seed (Node d attrs cs) =
     concat (map (attr_links Parse seed) attrs) @ concat (map (readHTML_links Parse seed) cs)"

subsection \<open>The path check (\<open>Scanner.isParentPath\<close>)\<close>

text \<open>
  \<open>Clean\<close> is \<open>filepath.Clean\<close> and \<open>sep\<close> is \<open>os.PathSeparator\<close>. The loop over the
  components of the parent stops at the first index where the two paths differ.
\<close>

definition isParentPath :: "(string \<Rightarrow> string) \<Rightarrow> char \<Rightarrow> string \<Rightarrow> string \<Rightarrow> error option" where
  "isParentPath Clean sep parent child =
     (let p = Split (Clean parent) sep;
          c = Split (Clean child) sep
      in if length p = 0 \<or> length c = 0 then Some ErrPathEmpty
         else if length c < length p then Some ErrPathChildShorter
         else (case find (\<lambda>i. p ! i \<noteq> c ! i) [0..<length p] of
                 Some i \<Rightarrow> Some ErrPathNotInParent
               | None \<Rightarrow> None))"

subsection \<open>Library samples for the examples\<close>

text \<open>
  \<open>strings.ToLower\<close> on a string of ASCII bytes: the letters \<open>A\<close> to \<open>Z\<close> become
  \<open>a\<close> to \<open>z\<close>, every other byte stays.
\<close>

definition ascii_lower :: "char \<Rightarrow> char" where
  "ascii_lower c =
     (case map_of (zip ''ABCDEFGHIJKLMNOPQRSTUVWXYZ'' ''abcdefghijklmnopqrstuvwxyz'') c of
        Some d \<Rightarrow> d
      | None \<Rightarrow> c)"

definition ascii_ToLower :: "string \<Rightarrow> string" where
  "ascii_ToLower s = map ascii_lower s"

text \<open>
  What \<open>url.Parse\<close> returns on the strings of the examples: a space in the host is an
  error of the library; \<open>http://\<close> parses to a URL with the scheme and nothing else; a
  string without scheme, query and fragment is a path. Strings outside the table are not
  used.
\<close>

definition sample_Parse :: "string \<Rightarrow> error + Url" where
  "sample_Parse s =
     (if s = ''http://exa mple.com'' then Inl (LibError ''invalid character in host name'')
      else if s = ''http://'' then Inr (mkUrl ''http'' [] [])
      else if s = ''http://example.com/a'' then Inr (mkUrl ''http'' ''example.com'' ''/a'')
      else if s = ''https://example.com/a'' then Inr (mkUrl ''https'' ''example.com'' ''/a'')
      else if s = ''http:///a/b'' then Inr (mkUrl ''http'' [] ''/a/b'')
      else if s = ''a.png 2x'' then Inr (mkUrl [] [] ''a.png 2x'')
      else if s = ''a.png'' then Inr (mkUrl [] [] ''a.png'')
      else Inl (LibError ''outside the table''))"

subsection \<open>The seed text the specification describes\<close>

text \<open>
  Following the specification's words: input with one of the prefixes \<open>http://\<close>,
  \<open>https://\<close>, \<open>//\<close> is parsed as it is, any other input as if prefixed with \<open>http://\<close>.
\<close>

definition spec_prefixed :: "string \<Rightarrow> bool" where
  "spec_prefixed t = (Index_is_0 t ''https://'' \<or> Index_is_0 t ''http://'' \<or> Index_is_0 t ''//'')"

definition spec_seed_text :: "string \<Rightarrow> string" where
  "spec_seed_text t = (if spec_prefixed t then t else ''http://'' @ t)"

subsection \<open>The task of one resource (\<open>Scanner.scan\<close>)\<close>

text \<open>
  What the task does to the world is recorded as a trace of events, in program order:
  the registration, every assignment to \<open>obj.state\<close>, the send to and the receive from
  the limiter, the calls of \<open>http.Get\<close>, \<open>ioutil.ReadAll\<close>, \<open>time.Sleep\<close>,
  \<open>os.MkdirAll\<close> and \<open>os.WriteFile\<close>, every \<open>go s.scan(link)\<close>, the log lines of
  \<open>scan\<close> itself, and the deferred \<open>workers.Done()\<close> when the task returns.
\<close>

datatype logline =
    LogSkipTooLong
  | LogNewLink
  | LogSkipNotInteresting
  | LogSkipExternal
  | LogRequestRepeatsExhausted
  | LogSkipStatus int
  | LogDownloadRepeatsExhausted
  | LogBadSavePath
  | LogMkdirFailed
  | LogWriteFailed

datatype event =
    EvAdd string bool
  | EvState SourceState
  | EvLog logline
  | EvAcquire
  | EvRelease
  | EvGet string
  | EvReadAll
  | EvSleep nat
  | EvScan Url
  | EvMkdirAll string
  | EvWriteFile string string
  | EvPanic
  | EvDone

text \<open>
  The network is an oracle: the answers to the successive calls of \<open>http.Get\<close>, each an
  error or a response with its status, its content length and what reading the body
  gives (the bytes read and the error of \<open>ioutil.ReadAll\<close>, if any). When the answers run
  out the task is waiting in \<open>http.Get\<close>.
\<close>

record Response =
  StatusCode :: int
  ContentLength :: int
  Body :: string
  BodyErr :: "error option"

datatype attempt = GetFails error | GetReturns Response

datatype loop_exit = Pending | Returned | Break string

definition sleep_events :: "nat option \<Rightarrow> event list" where
  "sleep_events d = (case d of None \<Rightarrow> [] | Some ms \<Rightarrow> [EvSleep ms])"

text \<open>
  One iteration of the request loop of \<open>scan\<close>, with the answer \<open>a\<close> to its \<open>http.Get\<close>.
  The result is the events, the resource afterwards and how the iteration ends: \<open>None\<close>
  for \<open>continue\<close>, \<open>Some Returned\<close> when the task returns from inside the loop (after
  giving the slot back), \<open>Some (Break body)\<close> when the loop is left with the body, the slot
  still held.
\<close>

definition iteration :: "int \<Rightarrow> string \<Rightarrow> attempt \<Rightarrow> Source \<Rightarrow> event list \<times> Source \<times> loop_exit option" where
  "iteration rmax key a obj =
     (let obj1 = obj\<lparr>src_state := SourceRequest\<rparr>
      in case a of
           GetFails e \<Rightarrow>
             (let obj2 = obj1\<lparr>src_repeats := incr (src_repeats obj1)\<rparr>
              in if src_repeats obj2 > rmax
                 then ([EvState SourceRequest, EvGet key, EvState SourceRequestError, EvRelease,
                        EvLog LogRequestRepeatsExhausted],
                       obj2\<lparr>src_state := SourceRequestError, src_err := Some e\<rparr>, Some Returned)
                 else ([EvState SourceRequest, EvGet key, EvState SourceRequestWaitRepeat],
                       obj2\<lparr>src_state := SourceRequestWaitRepeat, src_err := Some e\<rparr>, None))
         | GetReturns resp \<Rightarrow>
             if StatusCode resp = 503
             then (let obj2 = obj1\<lparr>src_state := SourceRequestWaitRepeat,
                                   src_err := Some (ErrStatus (StatusCode resp)),
                                   src_repeats := incr (src_repeats obj1)\<rparr>;
                       try = src_repeats obj2
                   in ([EvState SourceRequest, EvGet key, EvState SourceRequestWaitRepeat]
                         @ sleep_events (waitRepeat try),
                       obj2, None))
             else if StatusCode resp \<ge> 400
             then ([EvState SourceRequest, EvGet key, EvState SourceRequestError, EvRelease,
                    EvLog (LogSkipStatus (StatusCode resp))],
                   obj1\<lparr>src_state := SourceRequestError,
                         src_err := Some (ErrStatus (StatusCode resp))\<rparr>, Some Returned)
             else (let obj2 = (if ContentLength resp > 0
                               then obj1\<lparr>src_size := ContentLength resp\<rparr> else obj1)
                                \<lparr>src_state := SourceDownload\<rparr>;
                       obj3 = obj2\<lparr>src_size := int (length (Body resp))\<rparr>
                   in case BodyErr resp of
                        Some e \<Rightarrow>
                          (let obj4 = obj3\<lparr>src_err := Some e,
                                            src_repeats := incr (src_repeats obj3)\<rparr>
                           in if src_repeats obj4 > rmax
                              then ([EvState SourceRequest, EvGet key, EvState SourceDownload,
                                     EvReadAll, EvState SourceDownloadError, EvRelease,
                                     EvLog LogDownloadRepeatsExhausted],
                                    obj4\<lparr>src_state := SourceDownloadError\<rparr>, Some Returned)
                              else ([EvState SourceRequest, EvGet key, EvState SourceDownload,
                                     EvReadAll, EvState SourceRequest],
                                    obj4\<lparr>src_state := SourceRequest\<rparr>, None))
                      | None \<Rightarrow>
                          ([EvState SourceRequest, EvGet key, EvState SourceDownload, EvReadAll],
                           obj3, Some (Break (Body resp)))))"

text \<open>
  The request loop, entered with the slot acquired. Each iteration consumes one answer;
  with no answer left the task has set the state, called \<open>http.Get\<close> and waits.
\<close>

fun request :: "int \<Rightarrow> string \<Rightarrow> attempt list \<Rightarrow> Source \<Rightarrow> event list \<times> Source \<times> loop_exit" where
  "request rmax key [] obj =
     ([EvState SourceRequest, EvGet key], obj\<lparr>src_state := SourceRequest\<rparr>, Pending)"
| "request rmax key (a # rest) obj =
     (case iteration rmax key a obj of
        (evs, obj', Some ex) \<Rightarrow> (evs, obj', ex)
      | (evs, obj', None) \<Rightarrow>
          (case request rmax key rest obj' of
             (evs2, obj'', ex) \<Rightarrow> (evs @ evs2, obj'', ex)))"

text \<open>
  The library and the file system as \<open>scan\<close> uses them. \<open>readTXT_links\<close> stands for the
  links \<open>readTXT\<close> starts a scan for (two regular expressions and \<open>searchLink\<close>), given the
  seed and the body; it is not looked into here. \<open>os_MkdirAll\<close> and \<open>os_WriteFile\<close>
  give the error of the call, if any.
\<close>

record golib =
  url_String :: "Url \<Rightarrow> string"
  url_Hostname :: "Url \<Rightarrow> string"
  url_Parse :: "string \<Rightarrow> error + Url"
  html_Parse :: "string \<Rightarrow> error + Node"
  DetectContentType :: "string \<Rightarrow> string"
  ExtensionsByType :: "string \<Rightarrow> string list"
  filepath_Split :: "string \<Rightarrow> string \<times> string"
  filepath_Ext :: "string \<Rightarrow> string"
  filepath_Clean :: "string \<Rightarrow> string"
  PathSeparator :: char
  readTXT_links :: "Url \<Rightarrow> string \<Rightarrow> Url list"
  os_MkdirAll :: "string \<Rightarrow> error option"
  os_WriteFile :: "string \<Rightarrow> string \<Rightarrow> error option"

definition readHTML :: "golib \<Rightarrow> Url \<Rightarrow> Source \<Rightarrow> string \<Rightarrow> event list \<times> Source" where
  "readHTML L seed obj body =
     (case html_Parse L body of
        Inl e \<Rightarrow> ([], obj\<lparr>src_errRead := Some e\<rparr>)
      | Inr doc \<Rightarrow> (map EvScan (readHTML_links (url_Parse L) seed doc), obj))"

definition readTXT :: "golib \<Rightarrow> Url \<Rightarrow> string \<Rightarrow> event list" where
  "readTXT L seed body = map EvScan (readTXT_links L seed body)"

text \<open>The links read from the body, by its sniffed type.\<close>

definition read_body :: "golib \<Rightarrow> Url \<Rightarrow> Source \<Rightarrow> string \<Rightarrow> string \<Rightarrow> event list \<times> Source" where
  "read_body L seed obj mim body =
     (if Contains mim ''text/html''
      then (case readHTML L seed obj body of (evs, obj') \<Rightarrow> (evs @ readTXT L seed body, obj'))
      else if Contains mim ''application/octet-stream'' \<or> Contains mim ''model''
              \<or> Contains mim ''font'' \<or> Contains mim ''image'' \<or> Contains mim ''video''
              \<or> Contains mim ''audio'' \<or> Contains mim ''application/ogg''
      then ([], obj)
      else (readTXT L seed body, obj))"

text \<open>The name of the file to write.\<close>

definition save_name :: "golib \<Rightarrow> string \<Rightarrow> string \<Rightarrow> string" where
  "save_name L mim name =
     (if name = [] then ''/index.html''
      else if filepath_Ext L name = []
      then (case ExtensionsByType L mim of [] \<Rightarrow> name @ ''.html'' | x # xs \<Rightarrow> name @ x)
      else name)"

text \<open>\<open>scan\<close> after the loop and the receive from the limiter: reading and saving.\<close>

definition read_and_save :: "golib \<Rightarrow> string \<Rightarrow> Url \<Rightarrow> Source \<Rightarrow> string \<Rightarrow> event list \<times> Source" where
  "read_and_save L dir seed obj body =
     (let obj1 = obj\<lparr>src_state := SourceRead\<rparr>;
          mim = DetectContentType L body;
          obj2 = obj1\<lparr>src_mime := mim\<rparr>
      in case read_body L seed obj2 mim body of
           (links, obj3) \<Rightarrow>
             (let obj4 = obj3\<lparr>src_state := SourceSave\<rparr>;
                  path = fst (filepath_Split L (Path (src_url obj4)));
                  name = save_name L mim (snd (filepath_Split L (Path (src_url obj4))));
                  pre = [EvState SourceRead] @ links @ [EvState SourceSave]
              in case isParentPath (filepath_Clean L) (PathSeparator L) dir (dir @ path @ name) of
                   Some e \<Rightarrow>
                     (pre @ [EvState SourceSaveError, EvLog LogBadSavePath],
                      obj4\<lparr>src_state := SourceSaveError, src_err := Some e\<rparr>)
                 | None \<Rightarrow>
                     (case os_MkdirAll L (dir @ path) of
                        Some e \<Rightarrow>
                          (pre @ [EvMkdirAll (dir @ path), EvState SourceSaveError, EvLog LogMkdirFailed],
                           obj4\<lparr>src_state := SourceSaveError, src_err := Some e\<rparr>)
                      | None \<Rightarrow>
                          (case os_WriteFile L (dir @ path @ name) body of
                             Some e \<Rightarrow>
                               (pre @ [EvMkdirAll (dir @ path), EvWriteFile (dir @ path @ name) body,
                                       EvState SourceSaveError, EvLog LogWriteFailed],
                                obj4\<lparr>src_state := SourceSaveError, src_err := Some e\<rparr>)
                           | None \<Rightarrow>
                               (pre @ [EvMkdirAll (dir @ path), EvWriteFile (dir @ path @ name) body,
                                       EvState SourceComplete],
                                obj4\<lparr>src_state := SourceComplete\<rparr>)))))"

text \<open>Writing the task's resource back to the store.\<close>

definition put :: "ref \<Rightarrow> Source \<Rightarrow> Scanner \<Rightarrow> Scanner" where
  "put p obj s = s\<lparr>sc_sources := (sc_sources s)\<lparr>store := (store (sc_sources s))[p := obj]\<rparr>\<rparr>"

text \<open>
  \<open>scan\<close>. The argument is the URL (\<open>None\<close> for \<open>nil\<close>) and the answers of the network.
  The result is the trace and the scanner afterwards. The seed \<open>s.url\<close> is set before any
  task starts; were it \<open>nil\<close>, \<open>Add\<close> would panic. A created resource is the last of the
  store, so the read of \<open>store ! p\<close> is in range. The counter \<open>threads\<close> is for the report
  only and is left out.
\<close>

definition scan :: "golib \<Rightarrow> Scanner \<Rightarrow> Url option \<Rightarrow> attempt list \<Rightarrow> event list \<times> Scanner" where
  "scan L s url net =
     (case url of
        None \<Rightarrow> ([EvDone], s)
      | Some u \<Rightarrow>
          (case sc_url s of
             None \<Rightarrow> ([EvPanic], s)
           | Some seed \<Rightarrow>
               (case Add (url_String L) (url_Hostname L) seed u (sc_sources s) of
                  ((p, ok), reg) \<Rightarrow>
                    (let s1 = s\<lparr>sc_sources := reg\<rparr>;
                         key = url_String L u;
                         obj = store reg ! p
                     in if ok = False then ([EvAdd key False, EvDone], s1)
                        else if length key > 1000
                        then ([EvAdd key True, EvState SourceSkip, EvLog LogSkipTooLong, EvDone],
                              put p (obj\<lparr>src_state := SourceSkip, src_err := Some ErrSkipTooLong\<rparr>) s1)
                        else if src_isInteresting obj = False
                        then ([EvAdd key True, EvLog LogNewLink, EvState SourceSkip,
                               EvLog LogSkipNotInteresting, EvDone],
                              put p (obj\<lparr>src_state := SourceSkip\<rparr>) s1)
                        else if src_isExternal obj
                        then ([EvAdd key True, EvLog LogNewLink, EvState SourceSkip,
                               EvLog LogSkipExternal, EvDone],
                              put p (obj\<lparr>src_state := SourceSkip\<rparr>) s1)
                        else (case request (RepeatsMax (sc_params s)) key net obj of
                                (evs, obj', Pending) \<Rightarrow>
                                  ([EvAdd key True, EvLog LogNewLink, EvAcquire] @ evs, put p obj' s1)
                              | (evs, obj', Returned) \<Rightarrow>
                                  ([EvAdd key True, EvLog LogNewLink, EvAcquire] @ evs @ [EvDone],
                                   put p obj' s1)
                              | (evs, obj', Break body) \<Rightarrow>
                                  (case read_and_save L (sc_dir s) seed obj' body of
                                     (evs2, obj'') \<Rightarrow>
                                       ([EvAdd key True, EvLog LogNewLink, EvAcquire] @ evs
                                          @ [EvRelease] @ evs2 @ [EvDone],
                                        put p obj'' s1)))))))"

text \<open>The resource \<open>Add\<close> creates for a URL, and the registered resource of a URL.\<close>

definition fresh :: "golib \<Rightarrow> Url \<Rightarrow> Url \<Rightarrow> Source" where
  "fresh L seed u =
     \<lparr>src_url = u, src_state = SourceWait, src_mime = [], src_size = 0,
      src_isExternal = (url_Hostname L seed \<noteq> url_Hostname L u),
      src_isInteresting = IsInterstingProtocol u,
      src_err = None, src_errRead = None, src_repeats = 0\<rparr>"

definition resource :: "golib \<Rightarrow> Scanner \<Rightarrow> Url \<Rightarrow> Source option" where
  "resource L s u =
     (case reg_m (sources (sc_sources s)) (url_String L u) of
        None \<Rightarrow> None
      | Some p \<Rightarrow> if p < length (store (sc_sources s)) then Some (store (sc_sources s) ! p) else None)"

text \<open>A URL that is new to the registry.\<close>

definition unseen :: "golib \<Rightarrow> Scanner \<Rightarrow> Url \<Rightarrow> bool" where
  "unseen L s u \<longleftrightarrow> reg_m (sources (sc_sources s)) (url_String L u) = None"

text \<open>The three skip predicates of \<open>scan\<close>, in the order of the code.\<close>

definition too_long :: "golib \<Rightarrow> Url \<Rightarrow> bool" where
  "too_long L u \<longleftrightarrow> length (url_String L u) > 1000"

definition foreign :: "golib \<Rightarrow> Url \<Rightarrow> Url \<Rightarrow> bool" where
  "foreign L seed u \<longleftrightarrow> url_Hostname L seed \<noteq> url_Hostname L u"

text \<open>
  A sample library and scanner for the examples: URLs print as scheme, host and path, a
  body starting with \<open><\<close> is sniffed as HTML and anything else as plain text, HTML
  parses to a single \<open>img\<close> tag whose \<open>src\<close> is \<open>a.png\<close>, the separator is \<open>/\<close>, paths are
  taken as clean, and the file system accepts every call.
\<close>

definition sample_split :: "string \<Rightarrow> string \<times> string" where
  "sample_split p = (rev (dropWhile (\<lambda>c. c \<noteq> CHR ''/'') (rev p)), rev (takeWhile (\<lambda>c. c \<noteq> CHR ''/'') (rev p)))"

definition sample_lib :: golib where
  "sample_lib =
     \<lparr>url_String = sample_String, url_Hostname = sample_Hostname, url_Parse = sample_Parse,
      html_Parse = (\<lambda>b. Inr (Node ''img'' [(''src'', ''a.png'')] [])),
      DetectContentType = (\<lambda>b. if take 1 b = ''<'' then ''text/html; charset=utf-8''
                                 else ''text/plain; charset=utf-8''),
      ExtensionsByType = (\<lambda>m. [''.html'']),
      filepath_Split = sample_split,
      filepath_Ext = (\<lambda>n. if CHR ''.'' \<in> set n then ''.x'' else []),
      filepath_Clean = (\<lambda>p. p),
      PathSeparator = CHR ''/'',
      readTXT_links = (\<lambda>seed b. []),
      os_MkdirAll = (\<lambda>p. None),
      os_WriteFile = (\<lambda>p b. None)\<rparr>"

definition sample_scanner :: "int \<Rightarrow> Scanner" where
  "sample_scanner rmax =
     \<lparr>sc_params = \<lparr>URL = ''a.io'', ReplaceOutDir = False, RepeatsMax = rmax\<rparr>,
      sc_state = ScannerScanning, sc_limiter_cap = 20, sc_limiter_len = 0,
      sc_sources = \<lparr>store = [], sources = newSources\<rparr>,
      sc_url = Some (mkUrl ''http'' ''a.io'' []), sc_home = ''/out'', sc_dir = ''/out/a.io'',
      sc_dateStart = 1, sc_dateScan = 2, sc_dateFinish = 0, sc_err = None, sc_threads = 0\<rparr>"

definition ok_response :: "string \<Rightarrow> Response" where
  "ok_response b = \<lparr>StatusCode = 200, ContentLength = int (length b), Body = b, BodyErr = None\<rparr>"

definition busy_response :: Response where
  "busy_response = \<lparr>StatusCode = 503, ContentLength = 0, Body = [], BodyErr = None\<rparr>"

definition broken_response :: Response where
  "broken_response = \<lparr>StatusCode = 200, ContentLength = 10, Body = ''ab'', BodyErr = Some (LibError ''unexpected EOF'')\<rparr>"

text \<open>\<open>scan\<close> from the end of the loop on, by how the loop ended.\<close>

definition scan_tail :: "golib \<Rightarrow> Scanner \<Rightarrow> Url \<Rightarrow> Source \<Rightarrow> loop_exit \<Rightarrow> event list \<times> Source" where
  "scan_tail L s seed obj ex =
     (case ex of
        Pending \<Rightarrow> ([], obj)
      | Returned \<Rightarrow> ([EvDone], obj)
      | Break body \<Rightarrow>
          (EvRelease # fst (read_and_save L (sc_dir s) seed obj body) @ [EvDone],
           snd (read_and_save L (sc_dir s) seed obj body)))"

text \<open>A URL the task goes on to fetch: new to the registry and past the three skip checks.\<close>

definition admitted :: "golib \<Rightarrow> Scanner \<Rightarrow> Url \<Rightarrow> Url \<Rightarrow> bool" where
  "admitted L s seed u \<longleftrightarrow>
     sc_url s = Some seed \<and> unseen L s u \<and> \<not> too_long L u \<and> IsInterstingProtocol u
     \<and> \<not> foreign L seed u"

text \<open>
  Kinds of answers: a response with status 503, and a response that passes the status
  checks and whose body cannot be read to the end.
\<close>

definition busy :: "Response \<Rightarrow> bool" where
  "busy r \<longleftrightarrow> StatusCode r = 503"

definition broken :: "Response \<Rightarrow> bool" where
  "broken r \<longleftrightarrow> StatusCode r < 400 \<and> BodyErr r \<noteq> None"

text \<open>
  The backoff schedule in the specification's words: attempt 1 waits 200 ms, 2 waits 500,
  3 waits 1000, 4 waits 2000, 5 waits 5000 and every attempt from 6 on waits 8000.
\<close>

definition spec_backoff :: "nat \<Rightarrow> nat" where
  "spec_backoff n =
     (if n = 1 then 200 else if n = 2 then 500 else if n = 3 then 1000
      else if n = 4 then 2000 else if n = 5 then 5000 else 8000)"

text \<open>The path \<open>scan\<close> checks and writes: \<open>s.dir + path + name\<close>.\<close>

definition candidate :: "golib \<Rightarrow> string \<Rightarrow> Url \<Rightarrow> string \<Rightarrow> string" where
  "candidate L dir u body =
     dir @ fst (filepath_Split L (Path u))
         @ save_name L (DetectContentType L body) (snd (filepath_Split L (Path u)))"

text \<open>The events that touch the file system.\<close>

fun is_write :: "event \<Rightarrow> bool" where
  "is_write (EvMkdirAll p) = True"
| "is_write (EvWriteFile p b) = True"
| "is_write ev = False"

subsection \<open>The limiter and the tasks together\<close>

text \<open>
  Where a task stands with respect to the limiter: before the send, inside (the slot is
  held), after the receive, and finished. \<open>allowed\<close> says which events may happen in a
  phase and the phase they lead to: requests, body reads, sleeps and the states of the
  request loop only inside; registration, skipping, link extraction, writing and the
  states of reading and saving only outside; no return while the slot is held.
\<close>

datatype phase = Before | Inside | After | Finished

fun allowed :: "phase \<Rightarrow> event \<Rightarrow> phase option" where
  "allowed Before (EvAdd k c) = Some Before"
| "allowed Before (EvState st) = (if st = SourceSkip then Some Before else None)"
| "allowed Before (EvLog l) = Some Before"
| "allowed Before EvAcquire = Some Inside"
| "allowed Before EvDone = Some Finished"
| "allowed Inside (EvState st) =
     (if st = SourceRequest \<or> st = SourceRequestWaitRepeat \<or> st = SourceRequestError
         \<or> st = SourceDownload \<or> st = SourceDownloadError
      then Some Inside else None)"
| "allowed Inside (EvGet k) = Some Inside"
| "allowed Inside EvReadAll = Some Inside"
| "allowed Inside (EvSleep ms) = Some Inside"
| "allowed Inside EvRelease = Some After"
| "allowed After (EvState st) =
     (if st = SourceRead \<or> st = SourceSave \<or> st = SourceSaveError \<or> st = SourceComplete
      then Some After else None)"
| "allowed After (EvLog l) = Some After"
| "allowed After (EvScan u) = Some After"
| "allowed After (EvMkdirAll p) = Some After"
| "allowed After (EvWriteFile p b) = Some After"
| "allowed After EvDone = Some Finished"
| "allowed ph ev = None"

fun run :: "phase \<Rightarrow> event list \<Rightarrow> phase option" where
  "run ph [] = Some ph"
| "run ph (ev # evs) = (case allowed ph ev of None \<Rightarrow> None | Some ph' \<Rightarrow> run ph' evs)"

text \<open>
  Tasks running side by side. A task is the trace of its \<open>scan\<close>, split into the events
  that have happened and those to come. The state of the system is the number of values
  in the limiter and the tasks. An action starts a task (any URL, any answers of the
  network, the scanner as it is at that moment) or lets a task make its next event. The
  send to the limiter is possible only below its capacity and the receive only when it
  is not empty; an action that is not possible has no result.
\<close>

record task =
  t_done :: "event list"
  t_todo :: "event list"

datatype action = StartTask Scanner "Url option" "attempt list" | RunTask nat

definition advance :: "task \<Rightarrow> task" where
  "advance t = (case t_todo t of [] \<Rightarrow> t | e # es \<Rightarrow> \<lparr>t_done = t_done t @ [e], t_todo = es\<rparr>)"

fun exec :: "golib \<Rightarrow> nat \<Rightarrow> action \<Rightarrow> nat \<times> task list \<Rightarrow> (nat \<times> task list) option" where
  "exec L cap (StartTask s url net) (n, ts) =
     (if sc_url s = None then None
      else Some (n, ts @ [\<lparr>t_done = [], t_todo = fst (scan L s url net)\<rparr>]))"
| "exec L cap (RunTask i) (n, ts) =
     (if i < length ts
      then (case t_todo (ts ! i) of
              [] \<Rightarrow> None
            | e # es \<Rightarrow>
                if e = EvAcquire
                then (if n < cap then Some (Suc n, ts[i := advance (ts ! i)]) else None)
                else if e = EvRelease
                then (if 0 < n then Some (n - 1, ts[i := advance (ts ! i)]) else None)
                else Some (n, ts[i := advance (ts ! i)]))
      else None)"

fun execs :: "golib \<Rightarrow> nat \<Rightarrow> action list \<Rightarrow> nat \<times> task list \<Rightarrow> (nat \<times> task list) option" where
  "execs L cap [] g = Some g"
| "execs L cap (a # as) g = (case exec L cap a g of None \<Rightarrow> None | Some g' \<Rightarrow> execs L cap as g')"

text \<open>
  A task holds a slot when the events it has made lead inside. A task is fetching when
  its latest event is a call of \<open>http.Get\<close> or a read of the body.
\<close>

definition in_slot :: "task \<Rightarrow> bool" where
  "in_slot t \<longleftrightarrow> run Before (t_done t) = Some Inside"

fun is_fetch :: "event \<Rightarrow> bool" where
  "is_fetch (EvGet k) = True"
| "is_fetch EvReadAll = True"
| "is_fetch ev = False"

definition fetching :: "task \<Rightarrow> bool" where
  "fetching t \<longleftrightarrow> t_done t \<noteq> [] \<and> is_fetch (last (t_done t))"

text \<open>
  The invariant of the system: the limiter holds one value for each task in a slot, it is
  not over its capacity, and every task's trace is allowed from start to end.
\<close>

definition valid :: "task \<Rightarrow> bool" where
  "valid t \<longleftrightarrow> run Before (t_done t @ t_todo t) \<noteq> None"

definition sys_inv :: "nat \<Rightarrow> nat \<times> task list \<Rightarrow> bool" where
  "sys_inv cap g \<longleftrightarrow>
     length (filter in_slot (snd g)) = fst g \<and> fst g \<le> cap \<and> list_all valid (snd g)"

text \<open>A schedule for the examples: two tasks and a limiter of capacity 1.\<close>

definition sample_schedule :: "action list" where
  "sample_schedule =
     [StartTask (sample_scanner 0) (Some (mkUrl ''http'' ''a.io'' ''/x'')) [GetFails (LibError ''timeout'')],
      StartTask (sample_scanner 0) (Some (mkUrl ''http'' ''a.io'' ''/x'')) [],
      RunTask 0, RunTask 0, RunTask 0, RunTask 0, RunTask 0,
      RunTask 1, RunTask 1]"

section \<open>Restarting the scanner\<close>

lemma Start_restartable:
  "sc_state s \<in> {ScannerReady, ScannerOutputDirExist, ScannerIncorrectURL, ScannerComplete}
   \<Longrightarrow> fst (Start c now p s) = None \<and> sc_state (snd (Start c now p s)) = ScannerPreparing
       \<and> sc_params (snd (Start c now p s)) = p"
  by (auto simp: Start_def reset_def)

lemma Start_running:
  "sc_state s \<in> {ScannerPreparing, ScannerScanning}
   \<Longrightarrow> Start c now p s = (Some (ErrStartWhileRunning (sc_state s)), s)"
  by (auto simp: Start_def)

lemma Start_error_iff:
  "(fst (Start c now p s) \<noteq> None) =
     (sc_state s = ScannerPreparing \<or> sc_state s = ScannerScanning
      \<or> sc_state s = ScannerOutputDirError)"
  by (cases "sc_state s") (simp_all add: Start_def)

text \<open>
  C6. The claim lists \<open>OutputDirError\<close> among the states from which \<open>Start\<close> succeeds.
  The switch of \<open>Start\<close> does not list it: from \<open>ScannerOutputDirError\<close> the call returns
  the error naming the state and leaves the scanner as it was.
\<close>

theorem Start_from_OutputDirError:
  "Start c now p (s\<lparr>sc_state := ScannerOutputDirError\<rparr>) =
     (Some (ErrStartWhileRunning ScannerOutputDirError), s\<lparr>sc_state := ScannerOutputDirError\<rparr>)"
  by (simp add: Start_def)

section \<open>The registry\<close>

lemma reg_inv_new: "reg_inv String \<lparr>store = [], sources = newSources\<rparr>"
  by (simp add: reg_inv_def newSources_def)

lemma Add_result:
  "fst (Add String Hostname seed u r) =
     (the (reg_m (sources (snd (Add String Hostname seed u r))) (String u)),
      String u \<notin> dom (reg_m (sources r)))"
  by (auto simp: Add_def Let_def split: option.splits)

lemma Add_dom:
  "dom (reg_m (sources (snd (Add String Hostname seed u r)))) = insert (String u) (dom (reg_m (sources r)))"
  by (auto simp: Add_def Let_def split: option.splits)

lemma Add_map_le:
  "reg_m (sources r) \<subseteq>\<^sub>m reg_m (sources (snd (Add String Hostname seed u r)))"
  by (auto simp: Add_def Let_def map_le_def split: option.splits)

lemma Add_inv:
  assumes "reg_inv String r"
  shows "reg_inv String (snd (Add String Hostname seed u r))"
proof (cases "reg_m (sources r) (String u)")
  case (Some v)
  then show ?thesis using assms by (simp add: Add_def)
next
  case None
  have a: "reg_a (sources r) = [0..<length (store r)]"
    and b: "\<And>k p. reg_m (sources r) k = Some p \<Longrightarrow> p < length (store r) \<and> String (src_url (store r ! p)) = k"
    and c: "\<And>p. p < length (store r) \<Longrightarrow> reg_m (sources r) (String (src_url (store r ! p))) = Some p"
    using assms by (auto simp: reg_inv_def)
  have d: "\<And>p. p < length (store r) \<Longrightarrow> String (src_url (store r ! p)) \<noteq> String u"
    using c None by fastforce
  show ?thesis
    using None a b c d
    by (auto simp: Add_def Let_def reg_inv_def nth_append less_Suc_eq)
qed

lemma inv_distinct:
  assumes "reg_inv String r"
  shows "distinct (url_strings String r)"
proof -
  have a: "reg_a (sources r) = [0..<length (store r)]"
    and c: "\<And>p. p < length (store r) \<Longrightarrow> reg_m (sources r) (String (src_url (store r ! p))) = Some p"
    using assms by (auto simp: reg_inv_def)
  have "inj_on (\<lambda>p. String (src_url (store r ! p))) {0..<length (store r)}"
    by (rule inj_onI) (metis c atLeastLessThan_iff option.inject)
  then show ?thesis
    by (simp add: url_strings_def a distinct_map)
qed

lemma Adds_Cons:
  "Adds String Hostname seed (u # us) r =
     (fst (Add String Hostname seed u r) # fst (Adds String Hostname seed us (snd (Add String Hostname seed u r))),
      snd (Adds String Hostname seed us (snd (Add String Hostname seed u r))))"
  by (simp split: prod.splits)

lemma Adds_length: "length (fst (Adds String Hostname seed us r)) = length us"
  by (induction us arbitrary: r) (simp_all add: Adds_Cons del: Adds.simps(2))

lemma Adds_inv: "reg_inv String r \<Longrightarrow> reg_inv String (snd (Adds String Hostname seed us r))"
proof (induction us arbitrary: r)
  case Nil then show ?case by simp
next
  case (Cons u us)
  have "reg_inv String (snd (Add String Hostname seed u r))" using Cons.prems by (rule Add_inv)
  from Cons.IH[OF this] show ?case by (auto split: prod.splits)
qed

lemma Adds_map_le: "reg_m (sources r) \<subseteq>\<^sub>m reg_m (sources (snd (Adds String Hostname seed us r)))"
proof (induction us arbitrary: r)
  case Nil then show ?case by simp
next
  case (Cons u us)
  have "reg_m (sources r) \<subseteq>\<^sub>m reg_m (sources (snd (Add String Hostname seed u r)))" by (rule Add_map_le)
  also have "\<dots> \<subseteq>\<^sub>m reg_m (sources (snd (Adds String Hostname seed us (snd (Add String Hostname seed u r)))))"
    by (rule Cons.IH)
  finally (map_le_trans) show ?case by (auto split: prod.splits)
qed

lemma Adds_nth:
  "i < length us \<Longrightarrow>
   fst (Adds String Hostname seed us r) ! i =
     (the (reg_m (sources (snd (Adds String Hostname seed us r))) (String (us ! i))),
      String (us ! i) \<notin> dom (reg_m (sources r)) \<union> String ` set (take i us))"
proof (induction us arbitrary: r i)
  case Nil then show ?case by simp
next
  case (Cons u us)
  let ?r1 = "snd (Add String Hostname seed u r)"
  let ?r2 = "snd (Adds String Hostname seed us ?r1)"
  have snd_eq: "snd (Adds String Hostname seed (u # us) r) = ?r2" by (auto split: prod.splits)
  show ?case
  proof (cases i)
    case 0
    have "String u \<in> dom (reg_m (sources ?r1))" by (simp add: Add_dom)
    then obtain p where p: "reg_m (sources ?r1) (String u) = Some p" by auto
    have "reg_m (sources ?r1) \<subseteq>\<^sub>m reg_m (sources ?r2)" by (rule Adds_map_le)
    with p have "reg_m (sources ?r2) (String u) = Some p" by (metis domI map_le_def)
    with p 0 show ?thesis
      using Add_result[of String Hostname seed u r]
      by (auto split: prod.splits)
  next
    case (Suc j)
    then have j: "j < length us" using Cons.prems by simp
    from Cons.IH[OF j, of ?r1] Suc show ?thesis
      by (auto simp: Add_dom split: prod.splits)
  qed
qed

lemma Adds_dom:
  "dom (reg_m (sources (snd (Adds String Hostname seed us r)))) =
     dom (reg_m (sources r)) \<union> String ` set us"
  by (induction us arbitrary: r) (auto simp: Adds_Cons Add_dom simp del: Adds.simps(2))

lemma reg_inv_inj:
  assumes "reg_inv String r"
    and "k \<in> dom (reg_m (sources r))" and "k' \<in> dom (reg_m (sources r))"
    and "the (reg_m (sources r) k) = the (reg_m (sources r) k')"
  shows "k = k'"
proof -
  obtain p p' where p: "reg_m (sources r) k = Some p" and p': "reg_m (sources r) k' = Some p'"
    using assms(2,3) by auto
  have "String (src_url (store r ! p)) = k" "String (src_url (store r ! p')) = k'"
    using assms(1) p p' by (auto simp: reg_inv_def)
  with p p' assms(4) show ?thesis by simp
qed

lemma Add_store:
  "store (snd (Add String Hostname seed u r)) =
     (if String u \<in> dom (reg_m (sources r)) then store r
      else store r @ [created_source Hostname seed u])"
  by (auto simp: Add_def Let_def created_source_def split: option.splits)

lemma Add_ref_created:
  "String u \<notin> dom (reg_m (sources r)) \<Longrightarrow>
   fst (fst (Add String Hostname seed u r)) = length (store r)"
  by (auto simp: Add_def Let_def split: option.splits)

lemma Adds_store_grows:
  "\<exists>ys. store (snd (Adds String Hostname seed us r)) = store r @ ys"
proof (induction us arbitrary: r)
  case Nil
  then show ?case by simp
next
  case (Cons u us)
  obtain ys where a: "store (snd (Adds String Hostname seed us (snd (Add String Hostname seed u r))))
      = store (snd (Add String Hostname seed u r)) @ ys"
    using Cons.IH by blast
  show ?case unfolding Adds_Cons snd_conv a Add_store by auto
qed

lemma Adds_created:
  "i < length us \<Longrightarrow> snd (fst (Adds String Hostname seed us r) ! i) \<Longrightarrow>
   store (snd (Adds String Hostname seed us r)) ! fst (fst (Adds String Hostname seed us r) ! i)
     = created_source Hostname seed (us ! i)"
proof (induction us arbitrary: r i)
  case Nil
  then show ?case by simp
next
  case (Cons u us)
  let ?r1 = "snd (Add String Hostname seed u r)"
  show ?case
  proof (cases i)
    case 0
    have c: "String u \<notin> dom (reg_m (sources r))"
      using Cons.prems(2) 0 by (simp add: Adds_Cons Add_result del: Adds.simps(2))
    have p: "fst (fst (Add String Hostname seed u r)) = length (store r)"
      using c by (rule Add_ref_created)
    have s1: "store ?r1 = store r @ [created_source Hostname seed u]"
      using c by (simp add: Add_store)
    obtain ys where s2: "store (snd (Adds String Hostname seed us ?r1)) = store ?r1 @ ys"
      using Adds_store_grows by blast
    show ?thesis
      using 0 p by (simp add: Adds_Cons s2 s1 del: Adds.simps(2))
  next
    case (Suc j)
    then have j: "j < length us" using Cons.prems(1) by simp
    have "snd (fst (Adds String Hostname seed us ?r1) ! j)"
      using Cons.prems(2) Suc by (simp add: Adds_Cons del: Adds.simps(2))
    from Cons.IH[OF j this] show ?thesis
      using Suc by (simp add: Adds_Cons del: Adds.simps(2))
  qed
qed

lemma url_strings_store:
  assumes "reg_inv String r"
  shows "url_strings String r = map (\<lambda>x. String (src_url x)) (store r)"
proof -
  have a: "reg_a (sources r) = [0..<length (store r)]" using assms by (simp add: reg_inv_def)
  have "map (\<lambda>p. String (src_url (store r ! p))) [0..<length (store r)]
      = map (\<lambda>x. String (src_url x)) (map (\<lambda>p. store r ! p) [0..<length (store r)])"
    by simp
  also have "\<dots> = map (\<lambda>x. String (src_url x)) (store r)" by (simp only: map_nth)
  finally show ?thesis by (simp add: url_strings_def a)
qed

lemma url_strings_dom:
  assumes "reg_inv String r"
  shows "set (url_strings String r) = dom (reg_m (sources r))"
proof -
  have a: "reg_a (sources r) = [0..<length (store r)]"
    and b: "\<And>k p. reg_m (sources r) k = Some p \<Longrightarrow> p < length (store r) \<and> String (src_url (store r ! p)) = k"
    and c: "\<And>p. p < length (store r) \<Longrightarrow> reg_m (sources r) (String (src_url (store r ! p))) = Some p"
    using assms by (auto simp: reg_inv_def)
  show ?thesis
  proof
    show "set (url_strings String r) \<subseteq> dom (reg_m (sources r))"
      using c by (auto simp: url_strings_def a)
  next
    show "dom (reg_m (sources r)) \<subseteq> set (url_strings String r)"
    proof
      fix k assume "k \<in> dom (reg_m (sources r))"
      then obtain p where p: "reg_m (sources r) k = Some p" by auto
      then have "p < length (store r)" "String (src_url (store r ! p)) = k" using b by auto
      then show "k \<in> set (url_strings String r)" by (auto simp: url_strings_def a)
    qed
  qed
qed

text \<open>
  C1. Registry deduplication. For every sequence of registration attempts on a new
  registry: an attempt returns \<open>created = true\<close> exactly when no earlier attempt had the
  same URL string, so the first attempt with a URL string creates and every later one
  does not; two attempts return the same reference exactly when their URL strings are
  equal, so a later attempt returns the reference the first one created. The reference
  an attempt returns is the one the map holds for its URL string, and it points into the
  store at a resource with that URL string; the one a creating attempt returns points at
  the resource made from its URL. The sequence \<open>Sources.a\<close> lists every resource of the
  store, once and in the order of creation, the keys of the map are the URL strings of
  the attempts, there are as many resources as distinct URL strings, and no two
  resources share a URL string.
\<close>

theorem Add_dedup:
  assumes "Adds String Hostname seed us \<lparr>store = [], sources = newSources\<rparr> = (res, r)"
  shows "length res = length us
    \<and> (\<forall>i<length us. snd (res ! i) = (String (us ! i) \<notin> String ` set (take i us)))
    \<and> (\<forall>i<length us. \<forall>j<length us.
          (fst (res ! i) = fst (res ! j)) = (String (us ! i) = String (us ! j)))
    \<and> (\<forall>i<length us.
          fst (res ! i) < length (store r)
          \<and> reg_m (sources r) (String (us ! i)) = Some (fst (res ! i))
          \<and> String (src_url (store r ! fst (res ! i))) = String (us ! i))
    \<and> (\<forall>i<length us. snd (res ! i) \<longrightarrow>
          store r ! fst (res ! i) = created_source Hostname seed (us ! i))
    \<and> reg_a (sources r) = [0..<length (store r)]
    \<and> dom (reg_m (sources r)) = String ` set us
    \<and> length (store r) = card (String ` set us)
    \<and> distinct (map (\<lambda>x. String (src_url x)) (store r))
    \<and> distinct (url_strings String r)"
proof -
  let ?r0 = "\<lparr>store = [], sources = newSources\<rparr>"
  have res: "res = fst (Adds String Hostname seed us ?r0)"
    and r: "r = snd (Adds String Hostname seed us ?r0)"
    using assms by simp_all
  have inv: "reg_inv String r"
    unfolding r by (rule Adds_inv, rule reg_inv_new)
  have 1: "length res = length us" by (simp add: res Adds_length)
  have 2: "\<forall>i<length us. snd (res ! i) = (String (us ! i) \<notin> String ` set (take i us))"
    by (simp add: res Adds_nth newSources_def)
  have ref: "\<And>i. i < length us \<Longrightarrow> fst (res ! i) = the (reg_m (sources r) (String (us ! i)))"
    by (simp add: res r Adds_nth)
  have dm: "dom (reg_m (sources r)) = String ` set us"
    unfolding r Adds_dom by (simp add: newSources_def)
  have dom: "\<And>i. i < length us \<Longrightarrow> String (us ! i) \<in> dom (reg_m (sources r))"
    unfolding dm by simp
  have 3: "\<forall>i<length us. \<forall>j<length us.
          (fst (res ! i) = fst (res ! j)) = (String (us ! i) = String (us ! j))"
  proof (intro allI impI)
    fix i j assume i: "i < length us" and j: "j < length us"
    show "(fst (res ! i) = fst (res ! j)) = (String (us ! i) = String (us ! j))"
    proof
      assume "fst (res ! i) = fst (res ! j)"
      then have "the (reg_m (sources r) (String (us ! i))) = the (reg_m (sources r) (String (us ! j)))"
        using ref i j by simp
      with reg_inv_inj[OF inv dom[OF i] dom[OF j]] show "String (us ! i) = String (us ! j)" .
    next
      assume "String (us ! i) = String (us ! j)"
      then show "fst (res ! i) = fst (res ! j)" using ref i j by simp
    qed
  qed
  have 4: "\<forall>i<length us.
          fst (res ! i) < length (store r)
          \<and> reg_m (sources r) (String (us ! i)) = Some (fst (res ! i))
          \<and> String (src_url (store r ! fst (res ! i))) = String (us ! i)"
  proof (intro allI impI)
    fix i assume i: "i < length us"
    obtain p where p: "reg_m (sources r) (String (us ! i)) = Some p" using dom[OF i] by auto
    then have e: "fst (res ! i) = p" using ref[OF i] by simp
    have "p < length (store r) \<and> String (src_url (store r ! p)) = String (us ! i)"
      using inv p by (auto simp: reg_inv_def)
    then show "fst (res ! i) < length (store r)
          \<and> reg_m (sources r) (String (us ! i)) = Some (fst (res ! i))
          \<and> String (src_url (store r ! fst (res ! i))) = String (us ! i)"
      using p e by simp
  qed
  have 5: "\<forall>i<length us. snd (res ! i) \<longrightarrow>
          store r ! fst (res ! i) = created_source Hostname seed (us ! i)"
    unfolding res r using Adds_created by blast
  have 6: "reg_a (sources r) = [0..<length (store r)]" using inv by (simp add: reg_inv_def)
  have 9: "distinct (url_strings String r)" using inv by (rule inv_distinct)
  have 8: "distinct (map (\<lambda>x. String (src_url x)) (store r))"
    using 9 url_strings_store[OF inv] by simp
  have "length (store r) = length (url_strings String r)"
    by (simp add: url_strings_store[OF inv])
  also have "\<dots> = card (set (url_strings String r))" using 9 by (simp add: distinct_card)
  also have "\<dots> = card (String ` set us)" by (simp add: url_strings_dom[OF inv] dm)
  finally have 7: "length (store r) = card (String ` set us)" .
  from 1 2 3 4 5 6 dm 7 8 9 show ?thesis by blast
qed

lemma Adds_sample:
  "Adds sample_String sample_Hostname (mkUrl ''http'' ''a.io'' [])
     [mkUrl ''http'' ''a.io'' ''/x'', mkUrl ''http'' ''b.io'' ''/y'', mkUrl ''http'' ''a.io'' ''/x'']
     \<lparr>store = [], sources = newSources\<rparr>
   = ([(0, True), (1, True), (0, False)],
      snd (Adds sample_String sample_Hostname (mkUrl ''http'' ''a.io'' [])
        [mkUrl ''http'' ''a.io'' ''/x'', mkUrl ''http'' ''b.io'' ''/y'', mkUrl ''http'' ''a.io'' ''/x'']
        \<lparr>store = [], sources = newSources\<rparr>))"
  by (simp add: Add_def newSources_def sample_String_def sample_Hostname_def mkUrl_def
      IsInterstingProtocol_def)

theorem Add_dedup_witness:
  "length (store (snd (Adds sample_String sample_Hostname (mkUrl ''http'' ''a.io'' [])
          [mkUrl ''http'' ''a.io'' ''/x'', mkUrl ''http'' ''b.io'' ''/y'', mkUrl ''http'' ''a.io'' ''/x'']
          \<lparr>store = [], sources = newSources\<rparr>))) = 2
   \<and> store (snd (Adds sample_String sample_Hostname (mkUrl ''http'' ''a.io'' [])
          [mkUrl ''http'' ''a.io'' ''/x'', mkUrl ''http'' ''b.io'' ''/y'', mkUrl ''http'' ''a.io'' ''/x'']
          \<lparr>store = [], sources = newSources\<rparr>)) ! 0
        = created_source sample_Hostname (mkUrl ''http'' ''a.io'' []) (mkUrl ''http'' ''a.io'' ''/x'')
   \<and> store (snd (Adds sample_String sample_Hostname (mkUrl ''http'' ''a.io'' [])
          [mkUrl ''http'' ''a.io'' ''/x'', mkUrl ''http'' ''b.io'' ''/y'', mkUrl ''http'' ''a.io'' ''/x'']
          \<lparr>store = [], sources = newSources\<rparr>)) ! 1
        = created_source sample_Hostname (mkUrl ''http'' ''a.io'' []) (mkUrl ''http'' ''b.io'' ''/y'')
   \<and> reg_m (sources (snd (Adds sample_String sample_Hostname (mkUrl ''http'' ''a.io'' [])
          [mkUrl ''http'' ''a.io'' ''/x'', mkUrl ''http'' ''b.io'' ''/y'', mkUrl ''http'' ''a.io'' ''/x'']
          \<lparr>store = [], sources = newSources\<rparr>))) ''http://a.io/x'' = Some 0
   \<and> reg_a (sources (snd (Adds sample_String sample_Hostname (mkUrl ''http'' ''a.io'' [])
          [mkUrl ''http'' ''a.io'' ''/x'', mkUrl ''http'' ''b.io'' ''/y'', mkUrl ''http'' ''a.io'' ''/x'']
          \<lparr>store = [], sources = newSources\<rparr>))) = [0, 1]
   \<and> distinct (url_strings sample_String
        (snd (Adds sample_String sample_Hostname (mkUrl ''http'' ''a.io'' [])
          [mkUrl ''http'' ''a.io'' ''/x'', mkUrl ''http'' ''b.io'' ''/y'', mkUrl ''http'' ''a.io'' ''/x'']
          \<lparr>store = [], sources = newSources\<rparr>)))"
proof -
  let ?us = "[mkUrl ''http'' ''a.io'' ''/x'', mkUrl ''http'' ''b.io'' ''/y'', mkUrl ''http'' ''a.io'' ''/x'']"
  let ?res = "[(0::nat, True), (1, True), (0, False)]"
  let ?r = "snd (Adds sample_String sample_Hostname (mkUrl ''http'' ''a.io'' []) ?us
          \<lparr>store = [], sources = newSources\<rparr>)"
  note t = Add_dedup [OF Adds_sample]
  have len: "length (store ?r) = card (sample_String ` set ?us)" using t by blast
  have "sample_String ` set ?us = {''http://a.io/x'', ''http://b.io/y''}"
    by (auto simp: sample_String_def mkUrl_def)
  then have c: "card (sample_String ` set ?us) = 2"
    by simp
  have cr: "\<forall>i<length ?us. snd (?res ! i) \<longrightarrow>
          store ?r ! fst (?res ! i) = created_source sample_Hostname (mkUrl ''http'' ''a.io'' []) (?us ! i)"
    using t by blast
  have s0: "store ?r ! 0 = created_source sample_Hostname (mkUrl ''http'' ''a.io'' []) (mkUrl ''http'' ''a.io'' ''/x'')"
    using cr[THEN spec, of 0] by simp
  have s1: "store ?r ! 1 = created_source sample_Hostname (mkUrl ''http'' ''a.io'' []) (mkUrl ''http'' ''b.io'' ''/y'')"
    using cr[THEN spec, of 1] by simp
  have mp: "\<forall>i<length ?us. fst (?res ! i) < length (store ?r)
          \<and> reg_m (sources ?r) (sample_String (?us ! i)) = Some (fst (?res ! i))
          \<and> sample_String (src_url (store ?r ! fst (?res ! i))) = sample_String (?us ! i)"
    using t by blast
  have m0: "reg_m (sources ?r) ''http://a.io/x'' = Some 0"
    using mp[THEN spec, of 0] by (simp add: sample_String_def mkUrl_def)
  have ra: "reg_a (sources ?r) = [0..<length (store ?r)]" using t by blast
  have ra': "reg_a (sources ?r) = [0, 1]"
    unfolding ra len c by (simp add: upt_rec)
  have d: "distinct (url_strings sample_String ?r)" using t by blast
  show ?thesis using len c s0 s1 m0 ra' d by simp
qed

section \<open>The path check\<close>

lemma Split_nonempty: "Split s sep \<noteq> []"
  by (induction s) (auto split: list.splits)

lemma isParentPath_iff:
  "(isParentPath Clean sep parent child \<noteq> None) =
     (length (Split (Clean child) sep) < length (Split (Clean parent) sep)
      \<or> (\<exists>i<length (Split (Clean parent) sep).
            Split (Clean parent) sep ! i \<noteq> Split (Clean child) sep ! i))"
proof -
  let ?p = "Split (Clean parent) sep" and ?c = "Split (Clean child) sep"
  have ne: "length ?p \<noteq> 0" "length ?c \<noteq> 0" by (simp_all add: Split_nonempty)
  have f: "(find (\<lambda>i. ?p ! i \<noteq> ?c ! i) [0..<length ?p] = None) = (\<not> (\<exists>i<length ?p. ?p ! i \<noteq> ?c ! i))"
    by (auto simp: find_None_iff)
  show ?thesis
    using ne f by (auto simp: isParentPath_def Let_def split: option.splits)
qed

section \<open>The srcset extractor\<close>

lemma srcset_inner_eq:
  "srcset_inner Parse seed e toks =
     (case Parse e of Inl x \<Rightarrow> [] | Inr u \<Rightarrow> replicate (length toks) (absolute seed u))"
  by (induction toks) (auto split: sum.splits)

lemma parseSrcset_eq:
  "parseSrcset Parse seed val =
     concat (map (\<lambda>e. case Parse e of Inl x \<Rightarrow> []
                      | Inr u \<Rightarrow> replicate (length (Split e CHR '' '')) (absolute seed u))
                 (Split val CHR '',''))"
proof -
  have "srcset_outer Parse seed es =
     concat (map (\<lambda>e. case Parse e of Inl x \<Rightarrow> []
                      | Inr u \<Rightarrow> replicate (length (Split e CHR '' '')) (absolute seed u)) es)" for es
    by (induction es) (simp_all add: srcset_inner_eq)
  then show ?thesis by (simp add: parseSrcset_def)
qed

text \<open>
  C8. The claim: one URL per candidate of the srcset value, parsed from the candidate's
  URL token, the descriptor tokens discarded. On the value \<open>a.png 2x\<close> (one candidate,
  one descriptor) the extractor passes the whole candidate, descriptor included, to
  \<open>url.Parse\<close>, and returns the result once for each of the candidate's two tokens.
\<close>

theorem parseSrcset_descriptor:
  "parseSrcset Parse seed ''a.png 2x'' =
     (case Parse ''a.png 2x'' of Inl e \<Rightarrow> [] | Inr u \<Rightarrow> [absolute seed u, absolute seed u])"
  by (simp add: parseSrcset_def split: sum.splits)

text \<open>With the library's answer for that string: two links, both with the descriptor in the path.\<close>

lemma parseSrcset_descriptor_sample:
  "parseSrcset sample_Parse (mkUrl ''http'' ''a.io'' []) ''a.png 2x'' =
     [mkUrl ''http'' ''a.io'' ''a.png 2x'', mkUrl ''http'' ''a.io'' ''a.png 2x'']"
  by (simp add: parseSrcset_def sample_Parse_def mkUrl_def absolute_def IsAbs_def)

section \<open>Seed parsing\<close>

text \<open>
  C10. The seed is case-folded: two inputs with the same lowercased text are parsed to the
  same result, and where lowercasing a lowercased text changes nothing (as it does for
  \<open>strings.ToLower\<close>), parsing the lowercased text gives the result of parsing the text.
  The whole text is lowercased before anything else is done with it: the result is that
  of the same parser without its lowercasing step, run on the lowercased text.
\<close>

theorem parseURL_case_fold:
  "(ToLower a = ToLower b \<longrightarrow> parseURL ToLower Parse a = parseURL ToLower Parse b)
   \<and> (ToLower (ToLower text) = ToLower text
        \<longrightarrow> parseURL ToLower Parse (ToLower text) = parseURL ToLower Parse text)
   \<and> parseURL ToLower Parse text = parseURL (\<lambda>t. t) Parse (ToLower text)"
  by (simp add: parseURL_def)

theorem parseURL_case_fold_witness:
  "ascii_ToLower ''Example.COM/A'' = ascii_ToLower ''example.com/a''
   \<and> parseURL ascii_ToLower sample_Parse ''Example.COM/A'' = Inr (mkUrl ''http'' ''example.com'' ''/a'')
   \<and> parseURL ascii_ToLower sample_Parse ''example.com/a'' = Inr (mkUrl ''http'' ''example.com'' ''/a'')
   \<and> ascii_ToLower (ascii_ToLower ''Example.COM/A'') = ascii_ToLower ''Example.COM/A''
   \<and> parseURL ascii_ToLower sample_Parse (ascii_ToLower ''Example.COM/A'') = Inr (mkUrl ''http'' ''example.com'' ''/a'')"
proof -
  have l: "ascii_ToLower ''Example.COM/A'' = ''example.com/a''"
    by (simp add: ascii_ToLower_def ascii_lower_def)
  have l2: "ascii_ToLower ''example.com/a'' = ''example.com/a''"
    by (simp add: ascii_ToLower_def ascii_lower_def)
  have p: "parseURL ascii_ToLower sample_Parse ''example.com/a'' = Inr (mkUrl ''http'' ''example.com'' ''/a'')"
    by (simp add: parseURL_def l2 Index_is_0_def sample_Parse_def mkUrl_def)
  have p1: "parseURL ascii_ToLower sample_Parse ''Example.COM/A'' = parseURL ascii_ToLower sample_Parse ''example.com/a''"
    using parseURL_case_fold [of ascii_ToLower "''Example.COM/A''" "''example.com/a''" sample_Parse "''Example.COM/A''"]
    unfolding l l2 by blast
  have p2: "parseURL ascii_ToLower sample_Parse (ascii_ToLower ''Example.COM/A'') = parseURL ascii_ToLower sample_Parse ''example.com/a''"
    unfolding l ..
  show ?thesis
    unfolding p1 p2 p unfolding l l2 by simp
qed

text \<open>
  C7, as amended. The lowercased input is parsed as it is when it starts with
  \<open>https://\<close>, \<open>http://\<close> or \<open>//\<close>, and with \<open>http://\<close> in front otherwise.
  The result is an error when the lowercased input has fewer than 5 bytes, when
  \<open>url.Parse\<close> fails (its error is returned), and, for input without such a prefix, when
  the parsed host is empty; it is the parsed URL when the input has at least 5 bytes,
  \<open>url.Parse\<close> succeeds and the host is not empty.
\<close>

theorem parseURL_amended:
  "(length (ToLower text) < 5 \<longrightarrow> parseURL ToLower Parse text = Inl ErrTooShortAddress)
   \<and> (5 \<le> length (ToLower text) \<and> Parse (spec_seed_text (ToLower text)) = Inl e
        \<longrightarrow> parseURL ToLower Parse text = Inl e)
   \<and> (5 \<le> length (ToLower text) \<and> Parse (spec_seed_text (ToLower text)) = Inr u \<and> Host u \<noteq> []
        \<longrightarrow> parseURL ToLower Parse text = Inr u)
   \<and> (5 \<le> length (ToLower text) \<and> \<not> spec_prefixed (ToLower text)
        \<and> Parse (spec_seed_text (ToLower text)) = Inr u \<and> Host u = []
        \<longrightarrow> parseURL ToLower Parse text = Inl ErrAmbiguousURL)"
  by (simp add: parseURL_def spec_seed_text_def spec_prefixed_def Let_def)

theorem parseURL_amended_witness:
  "parseURL ascii_ToLower sample_Parse ''a.io'' = Inl ErrTooShortAddress
   \<and> parseURL ascii_ToLower sample_Parse ''exa mple.com'' = Inl (LibError ''invalid character in host name'')
   \<and> parseURL ascii_ToLower sample_Parse ''https://example.com/a'' = Inr (mkUrl ''https'' ''example.com'' ''/a'')"
proof -
  have l1: "ascii_ToLower ''a.io'' = ''a.io''"
    by (simp add: ascii_ToLower_def ascii_lower_def)
  have l2: "ascii_ToLower ''exa mple.com'' = ''exa mple.com''"
    by (simp add: ascii_ToLower_def ascii_lower_def)
  have l3: "ascii_ToLower ''https://example.com/a'' = ''https://example.com/a''"
    by (simp add: ascii_ToLower_def ascii_lower_def)
  have s2: "sample_Parse (spec_seed_text ''exa mple.com'') = Inl (LibError ''invalid character in host name'')"
    by (simp add: sample_Parse_def spec_seed_text_def spec_prefixed_def Index_is_0_def)
  have s3: "sample_Parse (spec_seed_text ''https://example.com/a'') = Inr (mkUrl ''https'' ''example.com'' ''/a'')"
    by (simp add: sample_Parse_def spec_seed_text_def spec_prefixed_def Index_is_0_def)
  have h3: "Host (mkUrl ''https'' ''example.com'' ''/a'') \<noteq> []"
    by (simp add: mkUrl_def)
  have a: "parseURL ascii_ToLower sample_Parse ''a.io'' = Inl ErrTooShortAddress"
    using parseURL_amended [of ascii_ToLower "''a.io''" sample_Parse] unfolding l1 by simp
  have b: "parseURL ascii_ToLower sample_Parse ''exa mple.com'' = Inl (LibError ''invalid character in host name'')"
    using parseURL_amended [of ascii_ToLower "''exa mple.com''" sample_Parse
        "LibError ''invalid character in host name''"] s2 unfolding l2 by simp
  have c: "parseURL ascii_ToLower sample_Parse ''https://example.com/a'' = Inr (mkUrl ''https'' ''example.com'' ''/a'')"
    using parseURL_amended [of ascii_ToLower "''https://example.com/a''" sample_Parse _
        "mkUrl ''https'' ''example.com'' ''/a''"] s3 h3 unfolding l3 by simp
  from a b c show ?thesis by simp
qed

text \<open>
  The claim as stated fails: on \<open>exa mple.com\<close> the parser returns an error although the
  input is not shorter than 5 bytes and no URL with an empty host results, because
  \<open>url.Parse\<close> rejects the text and its error is handed up.
\<close>

theorem parseURL_claim_counterexample:
  "parseURL ascii_ToLower sample_Parse ''exa mple.com'' = Inl (LibError ''invalid character in host name'')
   \<and> \<not> length (ascii_ToLower ''exa mple.com'') < 5
   \<and> sample_Parse (spec_seed_text (ascii_ToLower ''exa mple.com'')) = Inl (LibError ''invalid character in host name'')"
proof -
  have l: "ascii_ToLower ''exa mple.com'' = ''exa mple.com''"
    by (simp add: ascii_ToLower_def ascii_lower_def)
  show ?thesis
    by (simp add: parseURL_def l Index_is_0_def sample_Parse_def spec_seed_text_def spec_prefixed_def)
qed

text \<open>
  The branches for prefixed input return the library's result without looking at the
  host: \<open>http://\<close> is accepted with an empty host.
\<close>

lemma parseURL_empty_host_accepted:
  "parseURL ascii_ToLower sample_Parse ''http://'' = Inr (mkUrl ''http'' [] [])"
proof -
  have l: "ascii_ToLower ''http://'' = ''http://''"
    by (simp add: ascii_ToLower_def ascii_lower_def)
  show ?thesis
    by (simp add: parseURL_def l Index_is_0_def sample_Parse_def)
qed

section \<open>The task of one resource\<close>

lemma wrap64_id: "- (2 ^ 63) \<le> x \<Longrightarrow> x < 2 ^ 63 \<Longrightarrow> wrap64 x = x"
  by (simp add: wrap64_def)

lemma incr_id: "0 \<le> x \<Longrightarrow> x < 2 ^ 63 - 1 \<Longrightarrow> incr x = x + 1"
  by (simp add: incr_def wrap64_id)

lemma Add_unseen:
  "reg_m (sources (sc_sources s)) (url_String L u) = None \<Longrightarrow>
   Add (url_String L) (url_Hostname L) seed u (sc_sources s) =
     ((length (store (sc_sources s)), True),
      \<lparr>store = store (sc_sources s) @ [fresh L seed u],
       sources = \<lparr>reg_m = (reg_m (sources (sc_sources s)))(url_String L u \<mapsto> length (store (sc_sources s))),
                  reg_a = reg_a (sources (sc_sources s)) @ [length (store (sc_sources s))]\<rparr>\<rparr>)"
  by (simp add: Add_def fresh_def Let_def)

lemma scan_unseen:
  assumes "sc_url s = Some seed" and "unseen L s u"
  shows "fst (scan L s (Some u) net) =
     (if too_long L u then [EvAdd (url_String L u) True, EvState SourceSkip, EvLog LogSkipTooLong, EvDone]
      else if \<not> IsInterstingProtocol u
      then [EvAdd (url_String L u) True, EvLog LogNewLink, EvState SourceSkip, EvLog LogSkipNotInteresting, EvDone]
      else if foreign L seed u
      then [EvAdd (url_String L u) True, EvLog LogNewLink, EvState SourceSkip, EvLog LogSkipExternal, EvDone]
      else (case request (RepeatsMax (sc_params s)) (url_String L u) net (fresh L seed u) of
              (evs, obj, ex) \<Rightarrow>
                [EvAdd (url_String L u) True, EvLog LogNewLink, EvAcquire] @ evs
                  @ fst (scan_tail L s seed obj ex)))"
    and "resource L (snd (scan L s (Some u) net)) u =
     (if too_long L u then Some ((fresh L seed u)\<lparr>src_state := SourceSkip, src_err := Some ErrSkipTooLong\<rparr>)
      else if \<not> IsInterstingProtocol u \<or> foreign L seed u
      then Some ((fresh L seed u)\<lparr>src_state := SourceSkip\<rparr>)
      else (case request (RepeatsMax (sc_params s)) (url_String L u) net (fresh L seed u) of
              (evs, obj, ex) \<Rightarrow> Some (snd (scan_tail L s seed obj ex))))"
proof -
  have a: "reg_m (sources (sc_sources s)) (url_String L u) = None"
    using assms(2) by (simp add: unseen_def)
  have f1: "src_isInteresting (fresh L seed u) = IsInterstingProtocol u"
    and f2: "src_isExternal (fresh L seed u) = foreign L seed u"
    by (simp_all add: fresh_def foreign_def)
  show "fst (scan L s (Some u) net) =
     (if too_long L u then [EvAdd (url_String L u) True, EvState SourceSkip, EvLog LogSkipTooLong, EvDone]
      else if \<not> IsInterstingProtocol u
      then [EvAdd (url_String L u) True, EvLog LogNewLink, EvState SourceSkip, EvLog LogSkipNotInteresting, EvDone]
      else if foreign L seed u
      then [EvAdd (url_String L u) True, EvLog LogNewLink, EvState SourceSkip, EvLog LogSkipExternal, EvDone]
      else (case request (RepeatsMax (sc_params s)) (url_String L u) net (fresh L seed u) of
              (evs, obj, ex) \<Rightarrow>
                [EvAdd (url_String L u) True, EvLog LogNewLink, EvAcquire] @ evs
                  @ fst (scan_tail L s seed obj ex)))"
    by (simp add: scan_def assms(1) Add_unseen[OF a] f1 f2 too_long_def scan_tail_def Let_def
        split: prod.splits loop_exit.splits)
  show "resource L (snd (scan L s (Some u) net)) u =
     (if too_long L u then Some ((fresh L seed u)\<lparr>src_state := SourceSkip, src_err := Some ErrSkipTooLong\<rparr>)
      else if \<not> IsInterstingProtocol u \<or> foreign L seed u
      then Some ((fresh L seed u)\<lparr>src_state := SourceSkip\<rparr>)
      else (case request (RepeatsMax (sc_params s)) (url_String L u) net (fresh L seed u) of
              (evs, obj, ex) \<Rightarrow> Some (snd (scan_tail L s seed obj ex))))"
    by (simp add: scan_def assms(1) Add_unseen[OF a] f1 f2 too_long_def scan_tail_def Let_def
        resource_def put_def
        split: prod.splits loop_exit.splits)
qed


lemma request_continue:
  "iteration rmax key a obj = (evs, obj', None) \<Longrightarrow>
   request rmax key (a # rest) obj =
     (evs @ fst (request rmax key rest obj'), snd (request rmax key rest obj'))"
  by (simp split: prod.splits)

lemma request_exit:
  "iteration rmax key a obj = (evs, obj', Some ex) \<Longrightarrow>
   request rmax key (a # rest) obj = (evs, obj', ex)"
  by simp

lemma iteration_fail_retry:
  assumes "0 \<le> src_repeats obj" and "src_repeats obj < rmax" and "rmax < 2 ^ 63 - 1"
  shows "\<exists>obj'. iteration rmax key (GetFails e) obj =
            ([EvState SourceRequest, EvGet key, EvState SourceRequestWaitRepeat], obj', None)
          \<and> src_repeats obj' = src_repeats obj + 1 \<and> src_state obj' = SourceRequestWaitRepeat
          \<and> src_err obj' = Some e"
proof -
  have i: "incr (src_repeats obj) = src_repeats obj + 1"
    using assms by (intro incr_id) auto
  show ?thesis using assms(2) by (simp add: iteration_def Let_def i)
qed

lemma iteration_fail_last:
  assumes "0 \<le> src_repeats obj" and "src_repeats obj = rmax" and "rmax < 2 ^ 63 - 1"
  shows "\<exists>obj'. iteration rmax key (GetFails e) obj =
            ([EvState SourceRequest, EvGet key, EvState SourceRequestError, EvRelease,
              EvLog LogRequestRepeatsExhausted], obj', Some Returned)
          \<and> src_repeats obj' = rmax + 1 \<and> src_state obj' = SourceRequestError
          \<and> src_err obj' = Some e"
proof -
  have i: "incr rmax = rmax + 1"
    using assms by (intro incr_id) auto
  show ?thesis using assms(2) by (simp add: iteration_def Let_def i)
qed

lemma request_fails_retry:
  assumes "0 \<le> src_repeats obj" and "src_repeats obj + int (length es) \<le> rmax" and "rmax < 2 ^ 63 - 1"
  shows "\<exists>obj'. request rmax key (map GetFails es @ rest) obj =
            (concat (replicate (length es)
               [EvState SourceRequest, EvGet key, EvState SourceRequestWaitRepeat])
               @ fst (request rmax key rest obj'),
             snd (request rmax key rest obj'))
          \<and> src_repeats obj' = src_repeats obj + int (length es)"
  using assms
proof (induction es arbitrary: obj)
  case Nil
  show ?case by (intro exI[of _ obj]) simp
next
  case (Cons e es)
  obtain o1 where it: "iteration rmax key (GetFails e) obj =
            ([EvState SourceRequest, EvGet key, EvState SourceRequestWaitRepeat], o1, None)"
    and r1: "src_repeats o1 = src_repeats obj + 1"
    using iteration_fail_retry[of obj rmax key e] Cons.prems by auto
  obtain o2 where rq: "request rmax key (map GetFails es @ rest) o1 =
            (concat (replicate (length es)
               [EvState SourceRequest, EvGet key, EvState SourceRequestWaitRepeat])
               @ fst (request rmax key rest o2),
             snd (request rmax key rest o2))"
    and r2: "src_repeats o2 = src_repeats o1 + int (length es)"
    using Cons.IH[of o1] Cons.prems r1 by auto
  have "request rmax key (map GetFails (e # es) @ rest) obj =
            (concat (replicate (length (e # es))
               [EvState SourceRequest, EvGet key, EvState SourceRequestWaitRepeat])
               @ fst (request rmax key rest o2),
             snd (request rmax key rest o2))"
    using request_continue[OF it, of "map GetFails es @ rest"] rq by simp
  moreover have "src_repeats o2 = src_repeats obj + int (length (e # es))"
    using r1 r2 by simp
  ultimately show ?case by blast
qed

lemma request_fails_exhaust:
  assumes "src_repeats obj = 0" and "0 \<le> rmax" and "rmax < 2 ^ 63 - 1"
    and "length es = nat rmax"
  shows "\<exists>obj'. request rmax key (map GetFails es @ GetFails e # rest) obj =
            (concat (replicate (nat rmax)
               [EvState SourceRequest, EvGet key, EvState SourceRequestWaitRepeat])
               @ [EvState SourceRequest, EvGet key, EvState SourceRequestError, EvRelease,
                  EvLog LogRequestRepeatsExhausted],
             obj', Returned)
          \<and> src_repeats obj' = rmax + 1 \<and> src_state obj' = SourceRequestError
          \<and> src_err obj' = Some e"
proof -
  obtain o1 where rq: "request rmax key (map GetFails es @ GetFails e # rest) obj =
            (concat (replicate (length es)
               [EvState SourceRequest, EvGet key, EvState SourceRequestWaitRepeat])
               @ fst (request rmax key (GetFails e # rest) o1),
             snd (request rmax key (GetFails e # rest) o1))"
    and r1: "src_repeats o1 = src_repeats obj + int (length es)"
    using request_fails_retry[of obj es rmax key "GetFails e # rest"] assms by auto
  have r1': "src_repeats o1 = rmax" using r1 assms by simp
  obtain o2 where it: "iteration rmax key (GetFails e) o1 =
            ([EvState SourceRequest, EvGet key, EvState SourceRequestError, EvRelease,
              EvLog LogRequestRepeatsExhausted], o2, Some Returned)"
    and p: "src_repeats o2 = rmax + 1" "src_state o2 = SourceRequestError" "src_err o2 = Some e"
    using iteration_fail_last[of o1 rmax key e] r1' assms by auto
  show ?thesis
    using rq request_exit[OF it, of rest] p assms(4) by simp
qed


lemma iteration_broken_retry:
  assumes "0 \<le> src_repeats obj" and "src_repeats obj < rmax" and "rmax < 2 ^ 63 - 1"
    and "broken r"
  shows "\<exists>obj'. iteration rmax key (GetReturns r) obj =
            ([EvState SourceRequest, EvGet key, EvState SourceDownload, EvReadAll,
              EvState SourceRequest], obj', None)
          \<and> src_repeats obj' = src_repeats obj + 1"
proof -
  have i: "incr (src_repeats obj) = src_repeats obj + 1"
    using assms by (intro incr_id) auto
  show ?thesis using assms(2,4) by (auto simp: iteration_def Let_def i broken_def)
qed

lemma iteration_broken_last:
  assumes "0 \<le> src_repeats obj" and "src_repeats obj = rmax" and "rmax < 2 ^ 63 - 1"
    and "broken r"
  shows "\<exists>obj'. iteration rmax key (GetReturns r) obj =
            ([EvState SourceRequest, EvGet key, EvState SourceDownload, EvReadAll,
              EvState SourceDownloadError, EvRelease, EvLog LogDownloadRepeatsExhausted],
             obj', Some Returned)
          \<and> src_repeats obj' = rmax + 1 \<and> src_state obj' = SourceDownloadError
          \<and> src_err obj' = BodyErr r"
proof -
  have i: "incr (src_repeats obj) = src_repeats obj + 1"
    using assms by (intro incr_id) auto
  show ?thesis using assms(2,4) by (auto simp: iteration_def Let_def i broken_def)
qed

lemma request_broken_retry:
  assumes "0 \<le> src_repeats obj" and "src_repeats obj + int (length rs) \<le> rmax" and "rmax < 2 ^ 63 - 1"
    and "list_all broken rs"
  shows "\<exists>obj'. request rmax key (map GetReturns rs @ rest) obj =
            (concat (replicate (length rs)
               [EvState SourceRequest, EvGet key, EvState SourceDownload, EvReadAll,
                EvState SourceRequest])
               @ fst (request rmax key rest obj'),
             snd (request rmax key rest obj'))
          \<and> src_repeats obj' = src_repeats obj + int (length rs)"
  using assms
proof (induction rs arbitrary: obj)
  case Nil
  show ?case by (intro exI[of _ obj]) simp
next
  case (Cons r rs)
  obtain o1 where it: "iteration rmax key (GetReturns r) obj =
            ([EvState SourceRequest, EvGet key, EvState SourceDownload, EvReadAll,
              EvState SourceRequest], o1, None)"
    and r1: "src_repeats o1 = src_repeats obj + 1"
    using iteration_broken_retry[of obj rmax r key] Cons.prems by auto
  obtain o2 where rq: "request rmax key (map GetReturns rs @ rest) o1 =
            (concat (replicate (length rs)
               [EvState SourceRequest, EvGet key, EvState SourceDownload, EvReadAll,
                EvState SourceRequest])
               @ fst (request rmax key rest o2),
             snd (request rmax key rest o2))"
    and r2: "src_repeats o2 = src_repeats o1 + int (length rs)"
    using Cons.IH[of o1] Cons.prems r1 by auto
  have "request rmax key (map GetReturns (r # rs) @ rest) obj =
            (concat (replicate (length (r # rs))
               [EvState SourceRequest, EvGet key, EvState SourceDownload, EvReadAll,
                EvState SourceRequest])
               @ fst (request rmax key rest o2),
             snd (request rmax key rest o2))"
    using request_continue[OF it, of "map GetReturns rs @ rest"] rq by simp
  moreover have "src_repeats o2 = src_repeats obj + int (length (r # rs))"
    using r1 r2 by simp
  ultimately show ?case by blast
qed

lemma request_broken_exhaust:
  assumes "src_repeats obj = 0" and "0 \<le> rmax" and "rmax < 2 ^ 63 - 1"
    and "length rs = nat rmax" and "list_all broken rs" and "broken r"
  shows "\<exists>obj'. request rmax key (map GetReturns rs @ GetReturns r # rest) obj =
            (concat (replicate (nat rmax)
               [EvState SourceRequest, EvGet key, EvState SourceDownload, EvReadAll,
                EvState SourceRequest])
               @ [EvState SourceRequest, EvGet key, EvState SourceDownload, EvReadAll,
                  EvState SourceDownloadError, EvRelease, EvLog LogDownloadRepeatsExhausted],
             obj', Returned)
          \<and> src_repeats obj' = rmax + 1 \<and> src_state obj' = SourceDownloadError
          \<and> src_err obj' = BodyErr r"
proof -
  obtain o1 where rq: "request rmax key (map GetReturns rs @ GetReturns r # rest) obj =
            (concat (replicate (length rs)
               [EvState SourceRequest, EvGet key, EvState SourceDownload, EvReadAll,
                EvState SourceRequest])
               @ fst (request rmax key (GetReturns r # rest) o1),
             snd (request rmax key (GetReturns r # rest) o1))"
    and r1: "src_repeats o1 = src_repeats obj + int (length rs)"
    using request_broken_retry[of obj rs rmax key "GetReturns r # rest"] assms by auto
  have r1': "src_repeats o1 = rmax" using r1 assms by simp
  obtain o2 where it: "iteration rmax key (GetReturns r) o1 =
            ([EvState SourceRequest, EvGet key, EvState SourceDownload, EvReadAll,
              EvState SourceDownloadError, EvRelease, EvLog LogDownloadRepeatsExhausted],
             o2, Some Returned)"
    and p: "src_repeats o2 = rmax + 1" "src_state o2 = SourceDownloadError" "src_err o2 = BodyErr r"
    using iteration_broken_last[of o1 rmax r key] r1' assms by auto
  show ?thesis
    using rq request_exit[OF it, of rest] p assms(4) by simp
qed



lemma iteration_busy:
  assumes "0 \<le> src_repeats obj" and "src_repeats obj < 2 ^ 63 - 1" and "busy r"
  shows "\<exists>obj'. iteration rmax key (GetReturns r) obj =
            ([EvState SourceRequest, EvGet key, EvState SourceRequestWaitRepeat]
               @ sleep_events (waitRepeat (src_repeats obj + 1)), obj', None)
          \<and> src_repeats obj' = src_repeats obj + 1 \<and> src_state obj' = SourceRequestWaitRepeat
          \<and> src_err obj' = Some (ErrStatus 503)"
proof -
  have i: "incr (src_repeats obj) = src_repeats obj + 1"
    using assms by (intro incr_id) auto
  show ?thesis using assms(3) by (simp add: iteration_def Let_def i busy_def)
qed

lemma upt_0_Suc: "[0..<Suc n] = 0 # map Suc [0..<n]"
  by (simp add: upt_conv_Cons map_Suc_upt del: upt_Suc)

lemma request_busy:
  assumes "0 \<le> src_repeats obj" and "src_repeats obj + int (length rs) < 2 ^ 63" and "list_all busy rs"
  shows "\<exists>obj'. request rmax key (map GetReturns rs @ rest) obj =
            (concat (map (\<lambda>i. [EvState SourceRequest, EvGet key, EvState SourceRequestWaitRepeat]
                                 @ sleep_events (waitRepeat (src_repeats obj + int (Suc i))))
                         [0..<length rs])
               @ fst (request rmax key rest obj'),
             snd (request rmax key rest obj'))
          \<and> src_repeats obj' = src_repeats obj + int (length rs)
          \<and> (rs = [] \<longrightarrow> obj' = obj)
          \<and> (rs \<noteq> [] \<longrightarrow> src_state obj' = SourceRequestWaitRepeat \<and> src_err obj' = Some (ErrStatus 503))"
  using assms
proof (induction rs arbitrary: obj)
  case Nil
  show ?case by (intro exI[of _ obj]) simp
next
  case (Cons r rs)
  obtain o1 where it: "iteration rmax key (GetReturns r) obj =
            ([EvState SourceRequest, EvGet key, EvState SourceRequestWaitRepeat]
               @ sleep_events (waitRepeat (src_repeats obj + 1)), o1, None)"
    and r1: "src_repeats o1 = src_repeats obj + 1"
    and s1: "src_state o1 = SourceRequestWaitRepeat" "src_err o1 = Some (ErrStatus 503)"
    using iteration_busy[of obj r rmax key] Cons.prems by auto
  obtain o2 where rq: "request rmax key (map GetReturns rs @ rest) o1 =
            (concat (map (\<lambda>i. [EvState SourceRequest, EvGet key, EvState SourceRequestWaitRepeat]
                                 @ sleep_events (waitRepeat (src_repeats o1 + int (Suc i))))
                         [0..<length rs])
               @ fst (request rmax key rest o2),
             snd (request rmax key rest o2))"
    and r2: "src_repeats o2 = src_repeats o1 + int (length rs)"
    and s3: "rs = [] \<longrightarrow> o2 = o1"
    and s2: "rs \<noteq> [] \<longrightarrow> src_state o2 = SourceRequestWaitRepeat \<and> src_err o2 = Some (ErrStatus 503)"
    using Cons.IH[of o1] Cons.prems r1 by auto
  have shift: "map (\<lambda>i. [EvState SourceRequest, EvGet key, EvState SourceRequestWaitRepeat]
                                 @ sleep_events (waitRepeat (src_repeats o1 + int (Suc i))))
                         [0..<length rs]
     = map ((\<lambda>i. [EvState SourceRequest, EvGet key, EvState SourceRequestWaitRepeat]
                                 @ sleep_events (waitRepeat (src_repeats obj + int (Suc i)))) \<circ> Suc)
                         [0..<length rs]"
    by (simp add: r1 o_def add.assoc)
  have "request rmax key (map GetReturns (r # rs) @ rest) obj =
            (concat (map (\<lambda>i. [EvState SourceRequest, EvGet key, EvState SourceRequestWaitRepeat]
                                 @ sleep_events (waitRepeat (src_repeats obj + int (Suc i))))
                         [0..<length (r # rs)])
               @ fst (request rmax key rest o2),
             snd (request rmax key rest o2))"
    using request_continue[OF it, of "map GetReturns rs @ rest"] rq
    unfolding shift by (simp add: upt_0_Suc del: upt_Suc)
  moreover have "src_repeats o2 = src_repeats obj + int (length (r # rs))"
    using r1 r2 by simp
  moreover have "src_state o2 = SourceRequestWaitRepeat \<and> src_err o2 = Some (ErrStatus 503)"
  proof (cases "rs = []")
    case True
    then show ?thesis using s3 s1 by simp
  next
    case False
    then show ?thesis using s2 by simp
  qed
  ultimately show ?case by blast
qed

lemma request_starts:
  "\<exists>evs. fst (request rmax key net obj) = EvState SourceRequest # EvGet key # evs"
proof (cases net)
  case Nil
  then show ?thesis by simp
next
  case (Cons a rest)
  have "\<exists>evs. fst (iteration rmax key a obj) = EvState SourceRequest # EvGet key # evs"
    by (auto simp: iteration_def Let_def split: attempt.splits option.splits)
  then obtain evs where e: "fst (iteration rmax key a obj) = EvState SourceRequest # EvGet key # evs"
    by blast
  show ?thesis
    using e unfolding Cons
    by (cases "iteration rmax key a obj") (auto split: option.splits prod.splits)
qed

lemma waitRepeat_spec: "waitRepeat (int (Suc n)) = Some (spec_backoff (Suc n))"
  by (auto simp: waitRepeat_def spec_backoff_def)

lemma scan_admitted:
  assumes "admitted L s seed u"
  shows "fst (scan L s (Some u) net) =
           [EvAdd (url_String L u) True, EvLog LogNewLink, EvAcquire]
             @ fst (request (RepeatsMax (sc_params s)) (url_String L u) net (fresh L seed u))
             @ fst (scan_tail L s seed
                     (fst (snd (request (RepeatsMax (sc_params s)) (url_String L u) net (fresh L seed u))))
                     (snd (snd (request (RepeatsMax (sc_params s)) (url_String L u) net (fresh L seed u)))))"
    and "resource L (snd (scan L s (Some u) net)) u =
           Some (snd (scan_tail L s seed
                     (fst (snd (request (RepeatsMax (sc_params s)) (url_String L u) net (fresh L seed u))))
                     (snd (snd (request (RepeatsMax (sc_params s)) (url_String L u) net (fresh L seed u))))))"
proof -
  have a: "sc_url s = Some seed" "unseen L s u" "\<not> too_long L u" "IsInterstingProtocol u" "\<not> foreign L seed u"
    using assms by (simp_all add: admitted_def)
  show "fst (scan L s (Some u) net) =
           [EvAdd (url_String L u) True, EvLog LogNewLink, EvAcquire]
             @ fst (request (RepeatsMax (sc_params s)) (url_String L u) net (fresh L seed u))
             @ fst (scan_tail L s seed
                     (fst (snd (request (RepeatsMax (sc_params s)) (url_String L u) net (fresh L seed u))))
                     (snd (snd (request (RepeatsMax (sc_params s)) (url_String L u) net (fresh L seed u)))))"
    using scan_unseen(1)[OF a(1,2), of net] a(3,4,5) by (simp split: prod.splits)
  show "resource L (snd (scan L s (Some u) net)) u =
           Some (snd (scan_tail L s seed
                     (fst (snd (request (RepeatsMax (sc_params s)) (url_String L u) net (fresh L seed u))))
                     (snd (snd (request (RepeatsMax (sc_params s)) (url_String L u) net (fresh L seed u))))))"
    using scan_unseen(2)[OF a(1,2), of net] a(3,4,5) by (simp split: prod.splits)
qed

text \<open>
  C9. Skip predicates. For a resource whose registration returned \<open>created = true\<close> the
  task checks, in this order, a URL string longer than 1000 bytes, a scheme other than
  \<open>http\<close>, \<open>https\<close> and \<open>file\<close>, and a foreign host. The first predicate that holds sets
  the state to \<open>Skip\<close> and ends the task: the trace has no \<open>EvAcquire\<close> and no \<open>EvGet\<close>.
  Only when none holds does the task acquire the slot and issue its first request.
\<close>

theorem skip_checks:
  assumes "sc_url s = Some seed" and "unseen L s u"
  shows "(too_long L u \<longrightarrow>
            fst (scan L s (Some u) net) =
              [EvAdd (url_String L u) True, EvState SourceSkip, EvLog LogSkipTooLong, EvDone])
    \<and> (\<not> too_long L u \<and> \<not> IsInterstingProtocol u \<longrightarrow>
            fst (scan L s (Some u) net) =
              [EvAdd (url_String L u) True, EvLog LogNewLink, EvState SourceSkip,
               EvLog LogSkipNotInteresting, EvDone])
    \<and> (\<not> too_long L u \<and> IsInterstingProtocol u \<and> foreign L seed u \<longrightarrow>
            fst (scan L s (Some u) net) =
              [EvAdd (url_String L u) True, EvLog LogNewLink, EvState SourceSkip,
               EvLog LogSkipExternal, EvDone])
    \<and> (too_long L u \<or> \<not> IsInterstingProtocol u \<or> foreign L seed u \<longrightarrow>
            map_option src_state (resource L (snd (scan L s (Some u) net)) u) = Some SourceSkip)
    \<and> (\<not> too_long L u \<and> IsInterstingProtocol u \<and> \<not> foreign L seed u \<longrightarrow>
            take 5 (fst (scan L s (Some u) net)) =
              [EvAdd (url_String L u) True, EvLog LogNewLink, EvAcquire,
               EvState SourceRequest, EvGet (url_String L u)])
    \<and> IsInterstingProtocol u = (Scheme u \<in> {''http'', ''https'', ''file''})"
proof -
  obtain evs where r: "fst (request (RepeatsMax (sc_params s)) (url_String L u) net (fresh L seed u))
      = EvState SourceRequest # EvGet (url_String L u) # evs"
    using request_starts by blast
  have 5: "\<not> too_long L u \<and> IsInterstingProtocol u \<and> \<not> foreign L seed u \<longrightarrow>
            take 5 (fst (scan L s (Some u) net)) =
              [EvAdd (url_String L u) True, EvLog LogNewLink, EvAcquire,
               EvState SourceRequest, EvGet (url_String L u)]"
    using scan_unseen(1)[OF assms, of net] r by (simp split: prod.splits)
  have 6: "IsInterstingProtocol u = (Scheme u \<in> {''http'', ''https'', ''file''})"
    by (simp add: IsInterstingProtocol_def)
  have 4: "too_long L u \<or> \<not> IsInterstingProtocol u \<or> foreign L seed u \<longrightarrow>
            map_option src_state (resource L (snd (scan L s (Some u) net)) u) = Some SourceSkip"
    using scan_unseen(2)[OF assms, of net] by auto
  show ?thesis
    using scan_unseen(1)[OF assms, of net] 4 5 6 by simp
qed

lemma sample_facts:
  "sc_url (sample_scanner rmax) = Some (mkUrl ''http'' ''a.io'' [])"
  "unseen sample_lib (sample_scanner rmax) u"
  "RepeatsMax (sc_params (sample_scanner rmax)) = rmax"
  "sc_dir (sample_scanner rmax) = ''/out/a.io''"
  "url_String sample_lib (mkUrl sch h p) = sch @ ''://'' @ h @ p"
  "too_long sample_lib (mkUrl sch h p) = (1000 < length sch + 3 + length h + length p)"
  "foreign sample_lib (mkUrl sch h p) (mkUrl sch' h' p') = (h \<noteq> h')"
  "IsInterstingProtocol (mkUrl sch h p) = (sch = ''http'' \<or> sch = ''https'' \<or> sch = ''file'')"
  by (auto simp: sample_scanner_def unseen_def newSources_def sample_lib_def sample_String_def
      sample_Hostname_def mkUrl_def too_long_def foreign_def IsInterstingProtocol_def)

theorem skip_checks_witness:
  "fst (scan sample_lib (sample_scanner 2) (Some (mkUrl ''ftp'' ''b.io'' ''/x'')) []) =
     [EvAdd ''ftp://b.io/x'' True, EvLog LogNewLink, EvState SourceSkip,
      EvLog LogSkipNotInteresting, EvDone]
   \<and> fst (scan sample_lib (sample_scanner 2) (Some (mkUrl ''http'' ''b.io'' ''/x'')) []) =
     [EvAdd ''http://b.io/x'' True, EvLog LogNewLink, EvState SourceSkip,
      EvLog LogSkipExternal, EvDone]
   \<and> take 5 (fst (scan sample_lib (sample_scanner 2) (Some (mkUrl ''http'' ''a.io'' ''/x'')) [])) =
     [EvAdd ''http://a.io/x'' True, EvLog LogNewLink, EvAcquire, EvState SourceRequest,
      EvGet ''http://a.io/x'']"
  using skip_checks [where L = sample_lib and s = "sample_scanner 2" and u = "mkUrl ''ftp'' ''b.io'' ''/x''" and net = "[]",
      OF sample_facts(1) sample_facts(2)]
    skip_checks [where L = sample_lib and s = "sample_scanner 2" and u = "mkUrl ''http'' ''b.io'' ''/x''" and net = "[]",
      OF sample_facts(1) sample_facts(2)]
    skip_checks [where L = sample_lib and s = "sample_scanner 2" and u = "mkUrl ''http'' ''a.io'' ''/x''" and net = "[]",
      OF sample_facts(1) sample_facts(2)]
  by (simp add: sample_facts)

lemma admitted_sample: "admitted sample_lib (sample_scanner rmax) (mkUrl ''http'' ''a.io'' []) (mkUrl ''http'' ''a.io'' ''/x'')"
  by (simp add: admitted_def sample_facts)

text \<open>
  C4. Ordinary-retry ceiling, for \<open>0 \<le> RepeatsMax\<close> (and below the largest \<open>int\<close>). When
  every call of \<open>http.Get\<close> fails, the task makes exactly \<open>RepeatsMax + 1\<close> calls: after
  \<open>RepeatsMax + 1\<close> failures it has returned with the resource in \<open>RequestError\<close>, and
  after fewer it is in its next call. The whole trace has one acquire, one release at the
  end and no sleep. The same holds with \<open>DownloadError\<close> when every body read fails.
\<close>

theorem retry_ceiling:
  assumes "admitted L s seed u"
    and "0 \<le> RepeatsMax (sc_params s)" and "RepeatsMax (sc_params s) < 2 ^ 63 - 1"
  shows "(length es = nat (RepeatsMax (sc_params s)) + 1 \<longrightarrow>
            fst (scan L s (Some u) (map GetFails es @ rest)) =
              [EvAdd (url_String L u) True, EvLog LogNewLink, EvAcquire]
                @ concat (replicate (nat (RepeatsMax (sc_params s)))
                    [EvState SourceRequest, EvGet (url_String L u), EvState SourceRequestWaitRepeat])
                @ [EvState SourceRequest, EvGet (url_String L u), EvState SourceRequestError,
                   EvRelease, EvLog LogRequestRepeatsExhausted, EvDone]
            \<and> map_option src_state (resource L (snd (scan L s (Some u) (map GetFails es @ rest))) u)
                = Some SourceRequestError)
    \<and> (length es \<le> nat (RepeatsMax (sc_params s)) \<longrightarrow>
            fst (scan L s (Some u) (map GetFails es)) =
              [EvAdd (url_String L u) True, EvLog LogNewLink, EvAcquire]
                @ concat (replicate (length es)
                    [EvState SourceRequest, EvGet (url_String L u), EvState SourceRequestWaitRepeat])
                @ [EvState SourceRequest, EvGet (url_String L u)])
    \<and> (length rs = nat (RepeatsMax (sc_params s)) + 1 \<and> list_all broken rs \<longrightarrow>
            fst (scan L s (Some u) (map GetReturns rs @ rest)) =
              [EvAdd (url_String L u) True, EvLog LogNewLink, EvAcquire]
                @ concat (replicate (nat (RepeatsMax (sc_params s)))
                    [EvState SourceRequest, EvGet (url_String L u), EvState SourceDownload,
                     EvReadAll, EvState SourceRequest])
                @ [EvState SourceRequest, EvGet (url_String L u), EvState SourceDownload, EvReadAll,
                   EvState SourceDownloadError, EvRelease, EvLog LogDownloadRepeatsExhausted, EvDone]
            \<and> map_option src_state (resource L (snd (scan L s (Some u) (map GetReturns rs @ rest))) u)
                = Some SourceDownloadError)"
proof -
  let ?rmax = "RepeatsMax (sc_params s)" and ?key = "url_String L u" and ?obj = "fresh L seed u"
  have f0: "src_repeats ?obj = 0" by (simp add: fresh_def)
  have A: "fst (scan L s (Some u) (map GetFails es @ rest)) =
              [EvAdd ?key True, EvLog LogNewLink, EvAcquire]
                @ concat (replicate (nat ?rmax)
                    [EvState SourceRequest, EvGet ?key, EvState SourceRequestWaitRepeat])
                @ [EvState SourceRequest, EvGet ?key, EvState SourceRequestError,
                   EvRelease, EvLog LogRequestRepeatsExhausted, EvDone]
            \<and> map_option src_state (resource L (snd (scan L s (Some u) (map GetFails es @ rest))) u)
                = Some SourceRequestError"
    if len: "length es = nat ?rmax + 1"
  proof -
    have ne: "es \<noteq> []" using len by auto
    then have split: "es = butlast es @ [last es]" by simp
    have lb: "length (butlast es) = nat ?rmax" using len by simp
    obtain obj' where rq: "request ?rmax ?key (map GetFails (butlast es) @ GetFails (last es) # rest) ?obj =
            (concat (replicate (nat ?rmax)
               [EvState SourceRequest, EvGet ?key, EvState SourceRequestWaitRepeat])
               @ [EvState SourceRequest, EvGet ?key, EvState SourceRequestError, EvRelease,
                  EvLog LogRequestRepeatsExhausted],
             obj', Returned)"
      and st: "src_state obj' = SourceRequestError"
      using request_fails_exhaust[OF f0 assms(2,3) lb, of ?key "last es" rest] by blast
    have eq: "map GetFails es @ rest = map GetFails (butlast es) @ GetFails (last es) # rest"
      by (subst split) simp
    show ?thesis
      unfolding scan_admitted[OF assms(1)] eq rq
      by (simp add: scan_tail_def st)
  qed
  have B: "fst (scan L s (Some u) (map GetFails es)) =
              [EvAdd ?key True, EvLog LogNewLink, EvAcquire]
                @ concat (replicate (length es)
                    [EvState SourceRequest, EvGet ?key, EvState SourceRequestWaitRepeat])
                @ [EvState SourceRequest, EvGet ?key]"
    if len: "length es \<le> nat ?rmax"
  proof -
    have b: "src_repeats ?obj + int (length es) \<le> ?rmax" using len f0 assms(2) by simp
    obtain obj' where rq: "request ?rmax ?key (map GetFails es @ []) ?obj =
            (concat (replicate (length es)
               [EvState SourceRequest, EvGet ?key, EvState SourceRequestWaitRepeat])
               @ fst (request ?rmax ?key [] obj'),
             snd (request ?rmax ?key [] obj'))"
      using request_fails_retry[of ?obj es ?rmax ?key "[]"] f0 b assms(3) by auto
    show ?thesis
      unfolding scan_admitted[OF assms(1)] using rq
      by (simp add: scan_tail_def)
  qed
  have C: "fst (scan L s (Some u) (map GetReturns rs @ rest)) =
              [EvAdd ?key True, EvLog LogNewLink, EvAcquire]
                @ concat (replicate (nat ?rmax)
                    [EvState SourceRequest, EvGet ?key, EvState SourceDownload,
                     EvReadAll, EvState SourceRequest])
                @ [EvState SourceRequest, EvGet ?key, EvState SourceDownload, EvReadAll,
                   EvState SourceDownloadError, EvRelease, EvLog LogDownloadRepeatsExhausted, EvDone]
            \<and> map_option src_state (resource L (snd (scan L s (Some u) (map GetReturns rs @ rest))) u)
                = Some SourceDownloadError"
    if len: "length rs = nat ?rmax + 1" and br: "list_all broken rs"
  proof -
    have ne: "rs \<noteq> []" using len by auto
    then have split: "rs = butlast rs @ [last rs]" by simp
    have lb: "length (butlast rs) = nat ?rmax" using len by simp
    have b1: "list_all broken (butlast rs)" using br by (metis in_set_butlastD list_all_iff)
    have b2: "broken (last rs)" using br ne by (simp add: list_all_iff)
    obtain obj' where rq: "request ?rmax ?key (map GetReturns (butlast rs) @ GetReturns (last rs) # rest) ?obj =
            (concat (replicate (nat ?rmax)
               [EvState SourceRequest, EvGet ?key, EvState SourceDownload, EvReadAll,
                EvState SourceRequest])
               @ [EvState SourceRequest, EvGet ?key, EvState SourceDownload, EvReadAll,
                  EvState SourceDownloadError, EvRelease, EvLog LogDownloadRepeatsExhausted],
             obj', Returned)"
      and st: "src_state obj' = SourceDownloadError"
      using request_broken_exhaust[OF f0 assms(2,3) lb b1 b2, of ?key rest] by blast
    have eq: "map GetReturns rs @ rest = map GetReturns (butlast rs) @ GetReturns (last rs) # rest"
      by (subst split) simp
    show ?thesis
      unfolding scan_admitted[OF assms(1)] eq rq
      by (simp add: scan_tail_def st)
  qed
  from A B C show ?thesis by blast
qed

text \<open>
  C5. 503 backoff. Whatever \<open>RepeatsMax\<close> is, after any number of 503 answers the task
  has not ended: it is in its next request. After the \<open>i\<close>-th 503 it set the state to
  \<open>RequestWaitRepeat\<close> and slept \<open>spec_backoff i\<close> milliseconds, and the retry counter
  is the number of 503 answers.
\<close>

theorem busy_backoff:
  assumes "admitted L s seed u" and "list_all busy rs" and "int (length rs) < 2 ^ 63"
  shows "fst (scan L s (Some u) (map GetReturns rs)) =
           [EvAdd (url_String L u) True, EvLog LogNewLink, EvAcquire]
             @ concat (map (\<lambda>i. [EvState SourceRequest, EvGet (url_String L u),
                                  EvState SourceRequestWaitRepeat, EvSleep (spec_backoff (Suc i))])
                           [0..<length rs])
             @ [EvState SourceRequest, EvGet (url_String L u)]
    \<and> map_option src_state (resource L (snd (scan L s (Some u) (map GetReturns rs))) u)
         = Some SourceRequest
    \<and> map_option src_repeats (resource L (snd (scan L s (Some u) (map GetReturns rs))) u)
         = Some (int (length rs))"
proof -
  let ?rmax = "RepeatsMax (sc_params s)" and ?key = "url_String L u" and ?obj = "fresh L seed u"
  have f0: "src_repeats ?obj = 0" by (simp add: fresh_def)
  obtain obj' where rq: "request ?rmax ?key (map GetReturns rs @ []) ?obj =
            (concat (map (\<lambda>i. [EvState SourceRequest, EvGet ?key, EvState SourceRequestWaitRepeat]
                                 @ sleep_events (waitRepeat (src_repeats ?obj + int (Suc i))))
                         [0..<length rs])
               @ fst (request ?rmax ?key [] obj'),
             snd (request ?rmax ?key [] obj'))"
    and r: "src_repeats obj' = src_repeats ?obj + int (length rs)"
    using request_busy[of ?obj rs ?rmax ?key "[]"] f0 assms(2,3) by auto
  have sl: "(\<lambda>i. [EvState SourceRequest, EvGet ?key, EvState SourceRequestWaitRepeat]
                                 @ sleep_events (waitRepeat (src_repeats ?obj + int (Suc i))))
     = (\<lambda>i. [EvState SourceRequest, EvGet ?key, EvState SourceRequestWaitRepeat, EvSleep (spec_backoff (Suc i))])"
    unfolding f0 by (simp add: waitRepeat_spec sleep_events_def del: of_nat_Suc)
  show ?thesis
    unfolding scan_admitted[OF assms(1)] using rq r f0 unfolding sl
    by (simp add: scan_tail_def)
qed

theorem retry_ceiling_witness:
  "fst (scan sample_lib (sample_scanner 1) (Some (mkUrl ''http'' ''a.io'' ''/x''))
        [GetFails (LibError ''timeout''), GetFails (LibError ''reset'')]) =
     [EvAdd ''http://a.io/x'' True, EvLog LogNewLink, EvAcquire,
      EvState SourceRequest, EvGet ''http://a.io/x'', EvState SourceRequestWaitRepeat,
      EvState SourceRequest, EvGet ''http://a.io/x'', EvState SourceRequestError,
      EvRelease, EvLog LogRequestRepeatsExhausted, EvDone]
   \<and> fst (scan sample_lib (sample_scanner 1) (Some (mkUrl ''http'' ''a.io'' ''/x''))
        [GetFails (LibError ''timeout'')]) =
     [EvAdd ''http://a.io/x'' True, EvLog LogNewLink, EvAcquire,
      EvState SourceRequest, EvGet ''http://a.io/x'', EvState SourceRequestWaitRepeat,
      EvState SourceRequest, EvGet ''http://a.io/x'']
   \<and> fst (scan sample_lib (sample_scanner 1) (Some (mkUrl ''http'' ''a.io'' ''/x''))
        [GetReturns broken_response, GetReturns broken_response]) =
     [EvAdd ''http://a.io/x'' True, EvLog LogNewLink, EvAcquire,
      EvState SourceRequest, EvGet ''http://a.io/x'', EvState SourceDownload, EvReadAll,
      EvState SourceRequest,
      EvState SourceRequest, EvGet ''http://a.io/x'', EvState SourceDownload, EvReadAll,
      EvState SourceDownloadError, EvRelease, EvLog LogDownloadRepeatsExhausted, EvDone]"
proof -
  have b: "list_all broken [broken_response, broken_response]"
    by (simp add: broken_def broken_response_def)
  have r: "(0::int) \<le> RepeatsMax (sc_params (sample_scanner 1))"
    "RepeatsMax (sc_params (sample_scanner 1)) < 2 ^ 63 - 1"
    by (simp_all add: sample_facts)
  show ?thesis
    using retry_ceiling [OF admitted_sample r,
        where es = "[LibError ''timeout'', LibError ''reset'']" and rest = "[]"
          and rs = "[broken_response, broken_response]"]
      retry_ceiling [OF admitted_sample r,
        where es = "[LibError ''timeout'']" and rest = "[]" and rs = "[]"]
      b
    by (simp add: sample_facts)
qed

theorem busy_backoff_witness:
  "fst (scan sample_lib (sample_scanner 0) (Some (mkUrl ''http'' ''a.io'' ''/x''))
        [GetReturns busy_response, GetReturns busy_response]) =
     [EvAdd ''http://a.io/x'' True, EvLog LogNewLink, EvAcquire,
      EvState SourceRequest, EvGet ''http://a.io/x'', EvState SourceRequestWaitRepeat, EvSleep 200,
      EvState SourceRequest, EvGet ''http://a.io/x'', EvState SourceRequestWaitRepeat, EvSleep 500,
      EvState SourceRequest, EvGet ''http://a.io/x'']"
proof -
  have b: "list_all busy [busy_response, busy_response]"
    by (simp add: busy_def busy_response_def)
  have l: "int (length [busy_response, busy_response]) < 2 ^ 63" by simp
  have u: "[0..<2] = [0, Suc 0]" by (simp add: upt_rec)
  show ?thesis
    using busy_backoff [OF admitted_sample b l, of 0]
    by (simp add: sample_facts spec_backoff_def u)
qed

section \<open>Saving\<close>

lemma iteration_url: "src_url (fst (snd (iteration rmax key a obj))) = src_url obj"
  by (auto simp: iteration_def Let_def split: attempt.splits option.splits)

lemma iteration_no_write: "\<not> list_ex is_write (fst (iteration rmax key a obj))"
  by (auto simp: iteration_def Let_def sleep_events_def split: attempt.splits option.splits)

lemma request_url: "src_url (fst (snd (request rmax key net obj))) = src_url obj"
proof (induction net arbitrary: obj)
  case Nil
  then show ?case by simp
next
  case (Cons a rest)
  obtain evs o1 x where it: "iteration rmax key a obj = (evs, o1, x)"
    by (cases "iteration rmax key a obj") auto
  have u1: "src_url o1 = src_url obj" using iteration_url[of rmax key a obj] it by simp
  show ?case
  proof (cases x)
    case None
    then have "request rmax key (a # rest) obj =
        (evs @ fst (request rmax key rest o1), snd (request rmax key rest o1))"
      using it by (intro request_continue) simp
    then show ?thesis using Cons.IH[of o1] u1 by simp
  next
    case (Some ex)
    then show ?thesis using it u1 by simp
  qed
qed

lemma request_no_write: "\<not> list_ex is_write (fst (request rmax key net obj))"
proof (induction net arbitrary: obj)
  case Nil
  then show ?case by simp
next
  case (Cons a rest)
  obtain evs o1 x where it: "iteration rmax key a obj = (evs, o1, x)"
    by (cases "iteration rmax key a obj") auto
  have w1: "\<not> list_ex is_write evs" using iteration_no_write[of rmax key a obj] it by simp
  show ?case
  proof (cases x)
    case None
    then have "request rmax key (a # rest) obj =
        (evs @ fst (request rmax key rest o1), snd (request rmax key rest o1))"
      using it by (intro request_continue) simp
    then show ?thesis using Cons.IH[of o1] w1 by simp
  next
    case (Some ex)
    then show ?thesis using it w1 by simp
  qed
qed

lemma read_body_url: "src_url (snd (read_body L seed obj mim body)) = src_url obj"
  by (auto simp: read_body_def readHTML_def split: prod.splits sum.splits)

lemma read_body_no_write: "\<not> list_ex is_write (fst (read_body L seed obj mim body))"
  by (auto simp: read_body_def readHTML_def readTXT_def list_ex_iff split: prod.splits sum.splits)

lemma read_and_save_rejected:
  assumes "isParentPath (filepath_Clean L) (PathSeparator L) dir (candidate L dir (src_url obj) body) = Some e"
  shows "src_state (snd (read_and_save L dir seed obj body)) = SourceSaveError"
    and "src_err (snd (read_and_save L dir seed obj body)) = Some e"
    and "\<not> list_ex is_write (fst (read_and_save L dir seed obj body))"
proof -
  let ?mim = "DetectContentType L body"
  let ?o2 = "obj\<lparr>src_state := SourceRead, src_mime := ?mim\<rparr>"
  obtain links o3 where rb: "read_body L seed ?o2 ?mim body = (links, o3)"
    by (cases "read_body L seed ?o2 ?mim body") auto
  have u3: "src_url o3 = src_url obj" using read_body_url[of L seed ?o2 ?mim body] rb by simp
  have w3: "\<not> list_ex is_write links" using read_body_no_write[of L seed ?o2 ?mim body] rb by simp
  have c: "isParentPath (filepath_Clean L) (PathSeparator L) dir
      (dir @ fst (filepath_Split L (Path (src_url obj)))
           @ save_name L ?mim (snd (filepath_Split L (Path (src_url obj))))) = Some e"
    using assms by (simp add: candidate_def)
  show "src_state (snd (read_and_save L dir seed obj body)) = SourceSaveError"
    using rb u3 c by (simp add: read_and_save_def Let_def)
  show "src_err (snd (read_and_save L dir seed obj body)) = Some e"
    using rb u3 c by (simp add: read_and_save_def Let_def)
  show "\<not> list_ex is_write (fst (read_and_save L dir seed obj body))"
    using rb u3 c w3 by (simp add: read_and_save_def Let_def)
qed

text \<open>
  C3. Path containment. The check returns an error exactly when, with both paths cleaned
  and split into components, the candidate has fewer components than the root or some
  component of the root differs from the candidate's component at the same place. When
  the check of a downloaded resource's path returns an error, the resource ends in
  \<open>SaveError\<close> with that error and the task calls neither \<open>os.MkdirAll\<close> nor
  \<open>os.WriteFile\<close>: nothing is written.
\<close>

theorem path_containment:
  "((isParentPath Clean sep parent child \<noteq> None) =
      (length (Split (Clean child) sep) < length (Split (Clean parent) sep)
       \<or> (\<exists>i<length (Split (Clean parent) sep).
             Split (Clean parent) sep ! i \<noteq> Split (Clean child) sep ! i)))
   \<and> (admitted L s seed u
       \<and> snd (snd (request (RepeatsMax (sc_params s)) (url_String L u) net (fresh L seed u))) = Break body
       \<and> isParentPath (filepath_Clean L) (PathSeparator L) (sc_dir s) (candidate L (sc_dir s) u body) = Some e
       \<longrightarrow> map_option src_state (resource L (snd (scan L s (Some u) net)) u) = Some SourceSaveError
         \<and> map_option src_err (resource L (snd (scan L s (Some u) net)) u) = Some (Some e)
         \<and> \<not> list_ex is_write (fst (scan L s (Some u) net)))"
proof -
  have 2: "map_option src_state (resource L (snd (scan L s (Some u) net)) u) = Some SourceSaveError
         \<and> map_option src_err (resource L (snd (scan L s (Some u) net)) u) = Some (Some e)
         \<and> \<not> list_ex is_write (fst (scan L s (Some u) net))"
    if a: "admitted L s seed u"
      and b: "snd (snd (request (RepeatsMax (sc_params s)) (url_String L u) net (fresh L seed u))) = Break body"
      and c: "isParentPath (filepath_Clean L) (PathSeparator L) (sc_dir s) (candidate L (sc_dir s) u body) = Some e"
  proof -
    let ?rq = "request (RepeatsMax (sc_params s)) (url_String L u) net (fresh L seed u)"
    let ?obj = "fst (snd ?rq)"
    have u: "src_url ?obj = u" using request_url[of "RepeatsMax (sc_params s)" "url_String L u" net "fresh L seed u"]
      by (simp add: fresh_def)
    have c': "isParentPath (filepath_Clean L) (PathSeparator L) (sc_dir s) (candidate L (sc_dir s) (src_url ?obj) body) = Some e"
      using c u by simp
    note rs = read_and_save_rejected[OF c', of seed]
    have w: "\<not> list_ex is_write (fst ?rq)" by (rule request_no_write)
    show ?thesis
      unfolding scan_admitted[OF a] b using rs w
      by (simp add: scan_tail_def)
  qed
  show ?thesis using isParentPath_iff[of Clean sep parent child] 2 by blast
qed

theorem path_containment_witness:
  "isParentPath (\<lambda>p. p) CHR ''/'' ''/out/a.io'' ''/out/a.ioa.png'' = Some ErrPathNotInParent
   \<and> map_option src_state (resource sample_lib
        (snd (scan sample_lib (sample_scanner 1) (Some (mkUrl ''http'' ''a.io'' ''a.png''))
               [GetReturns (ok_response ''hello'')]))
        (mkUrl ''http'' ''a.io'' ''a.png'')) = Some SourceSaveError
   \<and> \<not> list_ex is_write
        (fst (scan sample_lib (sample_scanner 1) (Some (mkUrl ''http'' ''a.io'' ''a.png''))
               [GetReturns (ok_response ''hello'')]))"
proof -
  have a: "admitted sample_lib (sample_scanner 1) (mkUrl ''http'' ''a.io'' []) (mkUrl ''http'' ''a.io'' ''a.png'')"
    by (simp add: admitted_def sample_facts)
  have b: "snd (snd (request (RepeatsMax (sc_params (sample_scanner 1)))
      (url_String sample_lib (mkUrl ''http'' ''a.io'' ''a.png'')) [GetReturns (ok_response ''hello'')]
      (fresh sample_lib (mkUrl ''http'' ''a.io'' []) (mkUrl ''http'' ''a.io'' ''a.png'')))) = Break ''hello''"
    by (simp add: iteration_def ok_response_def Let_def)
  have cand: "candidate sample_lib ''/out/a.io'' (mkUrl ''http'' ''a.io'' ''a.png'') ''hello'' = ''/out/a.ioa.png''"
    by (simp add: candidate_def sample_lib_def sample_split_def mkUrl_def save_name_def)
  have i: "isParentPath (\<lambda>p. p) CHR ''/'' ''/out/a.io'' ''/out/a.ioa.png'' = Some ErrPathNotInParent"
    by (simp add: isParentPath_def upt_rec)
  have c: "isParentPath (filepath_Clean sample_lib) (PathSeparator sample_lib) (sc_dir (sample_scanner 1))
      (candidate sample_lib (sc_dir (sample_scanner 1)) (mkUrl ''http'' ''a.io'' ''a.png'') ''hello'') = Some ErrPathNotInParent"
    unfolding sample_facts cand using i by (simp add: sample_lib_def)
  show ?thesis
    using path_containment [where L = sample_lib and s = "sample_scanner 1"
        and seed = "mkUrl ''http'' ''a.io'' []" and u = "mkUrl ''http'' ''a.io'' ''a.png''"
        and net = "[GetReturns (ok_response ''hello'')]" and body = "''hello''"
        and e = ErrPathNotInParent] a b c i
    by simp
qed

section \<open>The limiter\<close>

text \<open>A run starts with an empty limiter of the given capacity.\<close>

lemma Start_limiter:
  "fst (Start c now p s) = None \<Longrightarrow>
     sc_limiter_cap (snd (Start c now p s)) = c \<and> sc_limiter_len (snd (Start c now p s)) = 0"
  by (cases "sc_state s") (simp_all add: Start_def reset_def)

lemma run_append:
  "run ph (xs @ ys) = (case run ph xs of None \<Rightarrow> None | Some ph' \<Rightarrow> run ph' ys)"
  by (induction xs arbitrary: ph) (auto split: option.splits)

lemma run_scans: "run After (map EvScan us) = Some After"
  by (induction us) auto

lemma run_iteration:
  "run Inside (fst (iteration rmax key a obj)) =
     Some (case snd (snd (iteration rmax key a obj)) of
             None \<Rightarrow> Inside | Some Returned \<Rightarrow> After | Some ex \<Rightarrow> Inside)"
  by (auto simp: iteration_def Let_def sleep_events_def split: attempt.splits option.splits)

lemma iteration_exit_not_Pending: "snd (snd (iteration rmax key a obj)) \<noteq> Some Pending"
  by (auto simp: iteration_def Let_def split: attempt.splits option.splits)

lemma run_request:
  "run Inside (fst (request rmax key net obj)) =
     Some (case snd (snd (request rmax key net obj)) of Returned \<Rightarrow> After | ex \<Rightarrow> Inside)"
proof (induction net arbitrary: obj)
  case Nil
  then show ?case by simp
next
  case (Cons a rest)
  obtain evs o1 x where it: "iteration rmax key a obj = (evs, o1, x)"
    by (cases "iteration rmax key a obj") auto
  have r1: "run Inside evs = Some (case x of None \<Rightarrow> Inside | Some Returned \<Rightarrow> After | Some ex \<Rightarrow> Inside)"
    using run_iteration[of rmax key a obj] it by simp
  show ?case
  proof (cases x)
    case None
    then have "request rmax key (a # rest) obj =
        (evs @ fst (request rmax key rest o1), snd (request rmax key rest o1))"
      using it by (intro request_continue) simp
    then show ?thesis using Cons.IH[of o1] r1 None by (simp add: run_append)
  next
    case (Some ex)
    then have "request rmax key (a # rest) obj = (evs, o1, ex)"
      using it by (intro request_exit) simp
    moreover have "ex \<noteq> Pending" using iteration_exit_not_Pending[of rmax key a obj] it Some by simp
    ultimately show ?thesis using r1 Some by (cases ex) simp_all
  qed
qed

lemma run_read_body: "run After (fst (read_body L seed obj mim body)) = Some After"
  by (auto simp: read_body_def readHTML_def readTXT_def run_scans run_append
      simp flip: map_append split: prod.splits sum.splits)

lemma run_read_and_save: "run After (fst (read_and_save L dir seed obj body)) = Some After"
proof -
  let ?mim = "DetectContentType L body"
  let ?o2 = "obj\<lparr>src_state := SourceRead, src_mime := ?mim\<rparr>"
  obtain links o3 where rb: "read_body L seed ?o2 ?mim body = (links, o3)"
    by (cases "read_body L seed ?o2 ?mim body") auto
  have l: "run After links = Some After" using run_read_body[of L seed ?o2 ?mim body] rb by simp
  show ?thesis
    using rb l
    by (auto simp: read_and_save_def Let_def run_append split: option.splits)
qed

lemma run_scan_tail:
  "run (case ex of Returned \<Rightarrow> After | ex \<Rightarrow> Inside) (fst (scan_tail L s seed obj ex)) =
     Some (case ex of Pending \<Rightarrow> Inside | ex \<Rightarrow> Finished)"
  by (cases ex) (simp_all add: scan_tail_def run_append run_read_and_save)

lemma run_scan:
  assumes "sc_url s \<noteq> None"
  shows "run Before (fst (scan L s url net)) = Some Inside
       \<or> run Before (fst (scan L s url net)) = Some Finished"
proof (cases url)
  case None
  then show ?thesis by (simp add: scan_def)
next
  case (Some u)
  obtain seed where seed: "sc_url s = Some seed" using assms by auto
  show ?thesis
  proof (cases "unseen L s u")
    case True
    let ?rq = "request (RepeatsMax (sc_params s)) (url_String L u) net (fresh L seed u)"
    have t: "run Before ([EvAdd (url_String L u) True, EvLog LogNewLink, EvAcquire]
               @ fst ?rq @ fst (scan_tail L s seed (fst (snd ?rq)) (snd (snd ?rq))))
             = Some (case snd (snd ?rq) of Pending \<Rightarrow> Inside | ex \<Rightarrow> Finished)"
      using run_request[of "RepeatsMax (sc_params s)" "url_String L u" net "fresh L seed u"]
        run_scan_tail[of "snd (snd ?rq)" L s seed "fst (snd ?rq)"]
      by (simp add: run_append)
    show ?thesis
      using scan_unseen(1)[OF seed True, of net] t unfolding Some
      by (auto split: prod.splits loop_exit.splits)
  next
    case False
    then obtain p where "reg_m (sources (sc_sources s)) (url_String L u) = Some p"
      by (auto simp: unseen_def)
    then show ?thesis unfolding Some
      by (simp add: scan_def seed Add_def Let_def)
  qed
qed

lemma allowed_Acquire: "(allowed ph EvAcquire = Some ph') = (ph = Before \<and> ph' = Inside)"
  by (cases ph) auto

lemma allowed_Release: "(allowed ph EvRelease = Some ph') = (ph = Inside \<and> ph' = After)"
  by (cases ph) auto

lemma allowed_other:
  "allowed ph e = Some ph' \<Longrightarrow> e \<noteq> EvAcquire \<Longrightarrow> e \<noteq> EvRelease \<Longrightarrow> (ph' = Inside) = (ph = Inside)"
  by (cases ph; cases e) (auto split: if_splits)

lemma allowed_fetch: "allowed ph e = Some ph' \<Longrightarrow> is_fetch e \<Longrightarrow> ph' = Inside"
  by (cases ph; cases e) (auto split: if_splits)

lemma allowed_Done: "(allowed ph EvDone = Some ph') = ((ph = Before \<or> ph = After) \<and> ph' = Finished)"
  by (cases ph) auto

lemma allowed_Finished: "allowed Finished e = None"
  by (cases e) auto

lemma run_Finished: "run Finished evs = Some ph \<Longrightarrow> evs = [] \<and> ph = Finished"
  by (cases evs) (auto simp: allowed_Finished)

lemma run_Done: "run ph evs = Some ph' \<Longrightarrow> EvDone \<in> set evs \<Longrightarrow> ph' = Finished"
proof (induction evs arbitrary: ph)
  case Nil
  then show ?case by simp
next
  case (Cons e evs)
  obtain ph1 where a: "allowed ph e = Some ph1" and r: "run ph1 evs = Some ph'"
    using Cons.prems(1) by (auto split: option.splits)
  show ?case
  proof (cases "e = EvDone")
    case True
    then have "ph1 = Finished" using a by (simp add: allowed_Done)
    then show ?thesis using r run_Finished by blast
  next
    case False
    then show ?thesis using Cons.IH[OF r] Cons.prems(2) by simp
  qed
qed

text \<open>Acquires and releases along an allowed trace, by the phases it connects.\<close>

lemma run_counts_inside:
  "run ph evs = Some ph' \<Longrightarrow> ph \<noteq> Before \<Longrightarrow>
     count_list evs EvAcquire = 0 \<and> ph' \<noteq> Before
     \<and> (ph = Inside \<longrightarrow> count_list evs EvRelease = (if ph' = Inside then 0 else 1))
     \<and> (ph \<noteq> Inside \<longrightarrow> count_list evs EvRelease = 0 \<and> ph' \<noteq> Inside)"
proof (induction evs arbitrary: ph)
  case Nil
  then show ?case by simp
next
  case (Cons e evs)
  obtain ph1 where a: "allowed ph e = Some ph1" and r: "run ph1 evs = Some ph'"
    using Cons.prems(1) by (auto split: option.splits)
  have n1: "ph1 \<noteq> Before" using a Cons.prems(2) by (cases ph; cases e) (auto split: if_splits)
  note ih = Cons.IH[OF r n1]
  show ?case
  proof (cases "e = EvRelease")
    case True
    then have "ph = Inside" "ph1 = After" using a by (simp_all add: allowed_Release)
    then show ?thesis using ih True by simp
  next
    case False
    have na: "e \<noteq> EvAcquire" using a Cons.prems(2) by (auto simp: allowed_Acquire)
    have "(ph1 = Inside) = (ph = Inside)" using allowed_other[OF a na False] .
    then show ?thesis using ih False na by auto
  qed
qed

lemma run_counts_before:
  "run Before evs = Some ph' \<Longrightarrow>
     count_list evs EvAcquire \<le> 1
     \<and> (ph' = Before \<longrightarrow> count_list evs EvAcquire = 0 \<and> count_list evs EvRelease = 0)
     \<and> (ph' = Inside \<longrightarrow> count_list evs EvAcquire = 1 \<and> count_list evs EvRelease = 0)
     \<and> (ph' = After \<longrightarrow> count_list evs EvAcquire = 1 \<and> count_list evs EvRelease = 1)
     \<and> (ph' = Finished \<longrightarrow> count_list evs EvRelease = count_list evs EvAcquire)"
proof (induction evs)
  case Nil
  then show ?case by simp
next
  case (Cons e evs)
  obtain ph1 where a: "allowed Before e = Some ph1" and r: "run ph1 evs = Some ph'"
    using Cons.prems(1) by (auto split: option.splits)
  have nr: "e \<noteq> EvRelease" using a by (auto simp: allowed_Release)
  show ?case
  proof (cases "ph1 = Before")
    case True
    then have "e \<noteq> EvAcquire" using a by (auto simp: allowed_Acquire)
    then show ?thesis using Cons.IH r True nr by simp
  next
    case False
    note c = run_counts_inside[OF r False]
    show ?thesis
    proof (cases "e = EvAcquire")
      case True
      then have "ph1 = Inside" using a by (simp add: allowed_Acquire)
      then show ?thesis using c True by auto
    next
      case F2: False
      have "ph1 = Finished" using a False F2 by (cases e) (auto split: if_splits)
      then have "ph' = Finished" "evs = []" using r run_Finished by blast+
      then show ?thesis using F2 nr by simp
    qed
  qed
qed

lemma filter_update:
  assumes "i < length ts"
  shows "length (filter P (ts[i := x])) + (if P (ts ! i) then 1 else 0)
       = length (filter P ts) + (if P x then 1 else 0)"
proof -
  have a: "ts = take i ts @ ts ! i # drop (Suc i) ts" using assms by (simp add: id_take_nth_drop)
  have b: "ts[i := x] = take i ts @ x # drop (Suc i) ts" using assms by (simp add: upd_conv_take_nth_drop)
  have "length (filter P ts) = length (filter P (take i ts)) + (if P (ts ! i) then 1 else 0)
      + length (filter P (drop (Suc i) ts))"
    by (subst a) simp
  moreover have "length (filter P (ts[i := x])) = length (filter P (take i ts)) + (if P x then 1 else 0)
      + length (filter P (drop (Suc i) ts))"
    by (subst b) simp
  ultimately show ?thesis by simp
qed

lemma list_all_update: "list_all P ts \<Longrightarrow> P x \<Longrightarrow> list_all P (ts[i := x])"
  by (metis list_all_iff set_update_subset_insert subsetD insert_iff)

lemma advance_step:
  assumes "valid t" and "t_todo t = e # es"
  shows "valid (advance t)"
    and "\<exists>ph ph'. run Before (t_done t) = Some ph \<and> allowed ph e = Some ph'
           \<and> run Before (t_done (advance t)) = Some ph'"
proof -
  have adv: "advance t = \<lparr>t_done = t_done t @ [e], t_todo = es\<rparr>"
    using assms(2) by (simp add: advance_def)
  have v: "run Before (t_done t @ e # es) \<noteq> None" using assms by (simp add: valid_def)
  then obtain ph where p: "run Before (t_done t) = Some ph"
    by (auto simp: run_append split: option.splits)
  then obtain ph' where a: "allowed ph e = Some ph'"
    using v by (auto simp: run_append split: option.splits)
  show "valid (advance t)" using v by (simp add: adv valid_def)
  show "\<exists>ph ph'. run Before (t_done t) = Some ph \<and> allowed ph e = Some ph'
           \<and> run Before (t_done (advance t)) = Some ph'"
    using p a by (simp add: adv run_append)
qed

lemma exec_inv:
  assumes "sys_inv cap g" and "exec L cap a g = Some g'"
  shows "sys_inv cap g'"
proof -
  obtain n ts where g: "g = (n, ts)" by (cases g)
  have cnt: "length (filter in_slot ts) = n" and le: "n \<le> cap" and val: "list_all valid ts"
    using assms(1) by (simp_all add: sys_inv_def g)
  show ?thesis
  proof (cases a)
    case (StartTask s url net)
    then have u: "sc_url s \<noteq> None"
      and g': "g' = (n, ts @ [\<lparr>t_done = [], t_todo = fst (scan L s url net)\<rparr>])"
      using assms(2) by (auto simp: g split: if_splits)
    have "valid \<lparr>t_done = [], t_todo = fst (scan L s url net)\<rparr>"
      using run_scan[OF u, of L url net] by (auto simp: valid_def)
    moreover have "\<not> in_slot \<lparr>t_done = [], t_todo = fst (scan L s url net)\<rparr>"
      by (simp add: in_slot_def)
    ultimately show ?thesis using cnt le val by (simp add: sys_inv_def g')
  next
    case (RunTask i)
    then have i: "i < length ts" using assms(2) by (auto simp: g split: if_splits)
    then obtain e es where todo: "t_todo (ts ! i) = e # es"
      using assms(2) RunTask by (cases "t_todo (ts ! i)") (auto simp: g)
    let ?t = "ts ! i"
    have vt: "valid ?t" using val i by (simp add: list_all_length)
    note st = advance_step[OF vt todo]
    obtain ph ph' where p: "run Before (t_done ?t) = Some ph" and al: "allowed ph e = Some ph'"
      and p': "run Before (t_done (advance ?t)) = Some ph'"
      using st(2) by blast
    have val': "list_all valid (ts[i := advance ?t])"
      using val st(1) by (rule list_all_update)
    note fu = filter_update[OF i, of in_slot "advance ?t"]
    show ?thesis
    proof (cases "e = EvAcquire")
      case True
      then have g': "g' = (Suc n, ts[i := advance ?t])" and lt: "n < cap"
        using assms(2) RunTask i todo by (auto simp: g split: if_splits)
      have "ph = Before" "ph' = Inside" using al True by (simp_all add: allowed_Acquire)
      then have "\<not> in_slot ?t" "in_slot (advance ?t)" using p p' by (simp_all add: in_slot_def)
      then show ?thesis using fu cnt lt val' by (simp add: sys_inv_def g')
    next
      case False
      show ?thesis
      proof (cases "e = EvRelease")
        case True
        then have g': "g' = (n - 1, ts[i := advance ?t])"
          using assms(2) RunTask i todo by (auto simp: g split: if_splits)
        have "ph = Inside" "ph' = After" using al True by (simp_all add: allowed_Release)
        then have "in_slot ?t" "\<not> in_slot (advance ?t)" using p p' by (simp_all add: in_slot_def)
        then show ?thesis using fu cnt le val' by (auto simp: sys_inv_def g')
      next
        case F2: False
        then have g': "g' = (n, ts[i := advance ?t])"
          using assms(2) RunTask i todo False by (auto simp: g split: if_splits)
        have "(ph' = Inside) = (ph = Inside)" using allowed_other[OF al False F2] .
        then have "in_slot (advance ?t) = in_slot ?t" using p p' by (simp add: in_slot_def)
        then show ?thesis using fu cnt le val' by (simp add: sys_inv_def g')
      qed
    qed
  qed
qed

lemma execs_inv: "sys_inv cap g \<Longrightarrow> execs L cap sched g = Some g' \<Longrightarrow> sys_inv cap g'"
proof (induction sched arbitrary: g)
  case Nil
  then show ?case by simp
next
  case (Cons a sched)
  obtain g1 where e: "exec L cap a g = Some g1" and r: "execs L cap sched g1 = Some g'"
    using Cons.prems(2) by (auto split: option.splits)
  show ?case using Cons.IH[OF exec_inv[OF Cons.prems(1) e] r] .
qed

lemma fetching_in_slot:
  assumes "valid t" and "fetching t"
  shows "in_slot t"
proof -
  have ne: "t_done t \<noteq> []" and f: "is_fetch (last (t_done t))"
    using assms(2) by (simp_all add: fetching_def)
  have d: "t_done t = butlast (t_done t) @ [last (t_done t)]" using ne by simp
  obtain ph where p: "run Before (t_done t) = Some ph"
    using assms(1) by (auto simp: valid_def run_append split: option.splits)
  then have "run Before (butlast (t_done t) @ [last (t_done t)]) = Some ph" using d by simp
  then obtain ph0 where "allowed ph0 (last (t_done t)) = Some ph"
    by (auto simp: run_append split: option.splits)
  then have "ph = Inside" using f by (rule allowed_fetch)
  then show ?thesis using p by (simp add: in_slot_def)
qed

lemma filter_length_mono:
  "(\<And>x. x \<in> set xs \<Longrightarrow> P x \<Longrightarrow> Q x) \<Longrightarrow> length (filter P xs) \<le> length (filter Q xs)"
  by (induction xs) auto

text \<open>
  C2. Bounded concurrency. In every state the system reaches, by any schedule of any
  tasks, the limiter holds exactly one value for each task that is inside its slot, so at
  most \<open>cap\<close> tasks are inside; every task that is in a call of \<open>http.Get\<close> or reading a
  body is inside its slot, so at most \<open>cap\<close> fetches run at the same time. For one task:
  its trace is allowed (requests, body reads and backoff sleeps only between the acquire
  and the release; registration, skip checks, link extraction and disk writes only
  outside), it acquires at most once, and a task that has returned has released as often
  as it has acquired.
\<close>

theorem bounded_concurrency:
  "(execs L cap sched (0, []) = Some (n, ts) \<longrightarrow>
      length (filter in_slot ts) = n \<and> n \<le> cap \<and> length (filter fetching ts) \<le> cap
      \<and> list_all (\<lambda>t. fetching t \<longrightarrow> in_slot t) ts)
   \<and> (sc_url s \<noteq> None \<longrightarrow>
      (run Before (fst (scan L s url net)) = Some Inside
         \<or> run Before (fst (scan L s url net)) = Some Finished)
      \<and> count_list (fst (scan L s url net)) EvAcquire \<le> 1
      \<and> (EvDone \<in> set (fst (scan L s url net)) \<longrightarrow>
            run Before (fst (scan L s url net)) = Some Finished
            \<and> count_list (fst (scan L s url net)) EvRelease
                = count_list (fst (scan L s url net)) EvAcquire))"
proof -
  have sys: "length (filter in_slot ts) = n \<and> n \<le> cap \<and> length (filter fetching ts) \<le> cap
      \<and> list_all (\<lambda>t. fetching t \<longrightarrow> in_slot t) ts"
    if e: "execs L cap sched (0, []) = Some (n, ts)"
  proof -
    have "sys_inv cap (0, [])" by (simp add: sys_inv_def)
    then have inv: "sys_inv cap (n, ts)" using e by (rule execs_inv)
    then have cnt: "length (filter in_slot ts) = n" and le: "n \<le> cap" and val: "list_all valid ts"
      by (simp_all add: sys_inv_def)
    have fi: "\<And>t. t \<in> set ts \<Longrightarrow> fetching t \<Longrightarrow> in_slot t"
      using val fetching_in_slot by (auto simp: list_all_iff)
    have "length (filter fetching ts) \<le> length (filter in_slot ts)"
      using fi by (rule filter_length_mono)
    then show ?thesis using cnt le fi by (simp add: list_all_iff)
  qed
  have one: "(run Before (fst (scan L s url net)) = Some Inside
         \<or> run Before (fst (scan L s url net)) = Some Finished)
      \<and> count_list (fst (scan L s url net)) EvAcquire \<le> 1
      \<and> (EvDone \<in> set (fst (scan L s url net)) \<longrightarrow>
            run Before (fst (scan L s url net)) = Some Finished
            \<and> count_list (fst (scan L s url net)) EvRelease
                = count_list (fst (scan L s url net)) EvAcquire)"
    if u: "sc_url s \<noteq> None"
  proof -
    let ?tr = "fst (scan L s url net)"
    note r = run_scan[OF u, of L url net]
    then obtain ph where p: "run Before ?tr = Some ph" by blast
    note c = run_counts_before[OF p]
    have d: "EvDone \<in> set ?tr \<longrightarrow> ph = Finished" using run_Done[OF p] by blast
    show ?thesis using r p c d by auto
  qed
  from sys one show ?thesis by blast
qed

lemma sample_trace_fail:
  "fst (scan sample_lib (sample_scanner 0) (Some (mkUrl ''http'' ''a.io'' ''/x''))
        [GetFails (LibError ''timeout'')]) =
     [EvAdd ''http://a.io/x'' True, EvLog LogNewLink, EvAcquire,
      EvState SourceRequest, EvGet ''http://a.io/x'', EvState SourceRequestError,
      EvRelease, EvLog LogRequestRepeatsExhausted, EvDone]"
  unfolding scan_admitted(1)[OF admitted_sample]
  by (simp add: sample_facts iteration_def incr_def wrap64_def scan_tail_def fresh_def Let_def)

lemma sample_trace_wait:
  "fst (scan sample_lib (sample_scanner 0) (Some (mkUrl ''http'' ''a.io'' ''/x'')) []) =
     [EvAdd ''http://a.io/x'' True, EvLog LogNewLink, EvAcquire,
      EvState SourceRequest, EvGet ''http://a.io/x'']"
  unfolding scan_admitted(1)[OF admitted_sample]
  by (simp add: sample_facts scan_tail_def)

lemma sample_run:
  "execs sample_lib (Suc 0) sample_schedule (0, []) =
     Some (1,
       [\<lparr>t_done = [EvAdd ''http://a.io/x'' True, EvLog LogNewLink, EvAcquire,
                    EvState SourceRequest, EvGet ''http://a.io/x''],
         t_todo = [EvState SourceRequestError, EvRelease, EvLog LogRequestRepeatsExhausted, EvDone]\<rparr>,
        \<lparr>t_done = [EvAdd ''http://a.io/x'' True, EvLog LogNewLink],
         t_todo = [EvAcquire, EvState SourceRequest, EvGet ''http://a.io/x'']\<rparr>])"
  by (simp add: sample_schedule_def sample_trace_fail sample_trace_wait sample_facts advance_def)

lemma sample_blocked: "execs sample_lib (Suc 0) (sample_schedule @ [RunTask (Suc 0)]) (0, []) = None"
proof -
  have "execs L cap (xs @ ys) g = (case execs L cap xs g of None \<Rightarrow> None | Some g' \<Rightarrow> execs L cap ys g')"
    for L cap xs ys g
    by (induction xs arbitrary: g) (auto split: option.splits)
  then show ?thesis by (simp add: sample_run)
qed

theorem bounded_concurrency_witness:
  "execs sample_lib (Suc 0) sample_schedule (0, []) \<noteq> None
   \<and> length (filter fetching (snd (the (execs sample_lib (Suc 0) sample_schedule (0, []))))) = Suc 0
   \<and> execs sample_lib (Suc 0) (sample_schedule @ [RunTask (Suc 0)]) (0, []) = None
   \<and> run Before (fst (scan sample_lib (sample_scanner 0) (Some (mkUrl ''http'' ''a.io'' ''/x''))
        [GetFails (LibError ''timeout'')])) = Some Finished
   \<and> count_list (fst (scan sample_lib (sample_scanner 0) (Some (mkUrl ''http'' ''a.io'' ''/x''))
        [GetFails (LibError ''timeout'')])) EvRelease = 1"
proof -
  have f: "length (filter fetching (snd (the (execs sample_lib (Suc 0) sample_schedule (0, []))))) = Suc 0"
    by (simp add: sample_run fetching_def)
  have u: "sc_url (sample_scanner 0) \<noteq> None" by (simp add: sample_facts)
  have d: "EvDone \<in> set (fst (scan sample_lib (sample_scanner 0) (Some (mkUrl ''http'' ''a.io'' ''/x''))
        [GetFails (LibError ''timeout'')]))"
    by (simp add: sample_trace_fail)
  have c: "count_list (fst (scan sample_lib (sample_scanner 0) (Some (mkUrl ''http'' ''a.io'' ''/x''))
        [GetFails (LibError ''timeout'')])) EvAcquire = 1"
    by (simp add: sample_trace_fail)
  show ?thesis
    using bounded_concurrency [where L = sample_lib and cap = "Suc 0" and sched = sample_schedule
        and s = "sample_scanner 0" and url = "Some (mkUrl ''http'' ''a.io'' ''/x'')"
        and net = "[GetFails (LibError ''timeout'')]"]
      sample_run sample_blocked f u d c
    by simp
qed

end
